theory Spec2Isabelle
  imports Main "HOL-Library.Multiset"
begin

section \<open>Strings and external functions of the runtime\<close>

text \<open>
  The program is a TypeScript worker (\<^verbatim>\<open>src/index copy.ts\<close>, the second of the two
  documents in that file, lines 1197 onwards). A JavaScript string is a sequence of
  UTF-16 code units; it is modelled as a list of their numbers, so that the CJK range
  of the slug's allow-list can be written down. \<open>js\<close> turns an ASCII literal into
  such a string.
\<close>

type_synonym jsstring = "nat list"

definition js :: "string \<Rightarrow> jsstring" where
  "js s = map of_char s"

text \<open>
  A template literal prints a non-negative integer in decimal
  (\<^verbatim>\<open>`${baseSlug}-${suffix++}`\<close>, \<^verbatim>\<open>${viewCount}\<close>).
\<close>

fun show_nat :: "nat \<Rightarrow> jsstring" where
  "show_nat n = (if n < 10 then [48 + n] else show_nat (n div 10) @ [48 + n mod 10])"

declare show_nat.simps [simp del]

text \<open>
  Functions of the JavaScript runtime and of the \<^verbatim>\<open>marked\<close> library that the source
  calls but does not define are parameters of the model, collected in one record. The
  literal chunks of the page template are constants of the source; \<open>tpl i\<close> is the
  \<open>i\<close>-th of them.
\<close>

record runtime =
  toLowerCase :: "jsstring \<Rightarrow> jsstring"
  marked_parse :: "jsstring \<Rightarrow> jsstring"
  toLocaleString :: "int \<Rightarrow> jsstring"
  toLocaleDateString :: "int \<Rightarrow> jsstring"
  getFullYear :: "int \<Rightarrow> nat"
  JSON_stringify :: "jsstring list \<Rightarrow> jsstring"
  JSON_parse :: "jsstring \<Rightarrow> jsstring list"
  tpl :: "nat \<Rightarrow> jsstring"

section \<open>The relational store\<close>

text \<open>
  Table \<^verbatim>\<open>posts\<close> of \<^verbatim>\<open>migrations/init.sql\<close>, with the column \<^verbatim>\<open>feature_image\<close>
  that the handlers write. Timestamps are instants in milliseconds: the handlers store
  \<^verbatim>\<open>new Date().toISOString()\<close>, a fixed-width text whose order as text is the order
  of the instants. A table is the list of its rows. An absent or NULL text column is
  the empty string, which JavaScript also treats as false.
\<close>

record post =
  post_id :: jsstring
  title :: jsstring
  slug :: jsstring
  content :: jsstring
  category :: jsstring
  tags :: jsstring
  feature_image :: jsstring
  published_at :: int
  is_published :: bool
  is_draft :: nat
  is_pinned :: nat

section \<open>generateUniqueSlug\<close>

text \<open>
  \<^verbatim>\<open>[\s U+00A0]\<close>: the white space and line terminator code units of ECMAScript.
\<close>

definition is_space :: "nat \<Rightarrow> bool" where
  "is_space c \<longleftrightarrow>
     c \<in> {9, 10, 11, 12, 13, 32, 160, 5760, 8232, 8233, 8239, 8287, 12288, 65279}
     \<or> (8192 \<le> c \<and> c \<le> 8202)"

text \<open>\<^verbatim>\<open>[a-z0-9U+4E00-U+9FA5-_]\<close>, the characters that survive the second replace.\<close>

definition allowed :: "nat \<Rightarrow> bool" where
  "allowed c \<longleftrightarrow>
     (97 \<le> c \<and> c \<le> 122) \<or> (48 \<le> c \<and> c \<le> 57) \<or> (19968 \<le> c \<and> c \<le> 40869)
     \<or> c = 45 \<or> c = 95"

text \<open>\<^verbatim>\<open>.replace(/[\s U+00A0]+/g, '-')\<close>: every maximal run of white space becomes one hyphen.\<close>

function replace_spaces :: "jsstring \<Rightarrow> jsstring" where
  "replace_spaces [] = []"
| "replace_spaces (c # cs) =
     (if is_space c then 45 # replace_spaces (dropWhile is_space cs)
      else c # replace_spaces cs)"
  by pat_completeness auto
termination
  by (relation "measure length") (auto simp: length_dropWhile_le less_Suc_eq_le)

text \<open>\<^verbatim>\<open>.replace(/[^a-z0-9U+4E00-U+9FA5-_]/g, '')\<close>\<close>

definition strip_disallowed :: "jsstring \<Rightarrow> jsstring" where
  "strip_disallowed s = filter allowed s"

text \<open>\<^verbatim>\<open>.replace(/-{2,}/g, '-')\<close>: a run of hyphens becomes one hyphen.\<close>

function collapse_hyphens :: "jsstring \<Rightarrow> jsstring" where
  "collapse_hyphens [] = []"
| "collapse_hyphens (c # cs) =
     (if c = 45 then 45 # collapse_hyphens (dropWhile (\<lambda>d. d = 45) cs)
      else c # collapse_hyphens cs)"
  by pat_completeness auto
termination
  by (relation "measure length") (auto simp: length_dropWhile_le less_Suc_eq_le)

text \<open>No two hyphens in a row: what the third replace leaves.\<close>

fun no_double_hyphen :: "jsstring \<Rightarrow> bool" where
  "no_double_hyphen (a # b # cs) \<longleftrightarrow> \<not> (a = 45 \<and> b = 45) \<and> no_double_hyphen (b # cs)"
| "no_double_hyphen _ \<longleftrightarrow> True"

text \<open>
  \<^verbatim>\<open>.replace(/^-|-$/g, '')\<close>: one hyphen at the start and one at the end are removed;
  the match at the start consumes its hyphen, so the match at the end is looked for in
  what follows it.
\<close>

definition trim_hyphens :: "jsstring \<Rightarrow> jsstring" where
  "trim_hyphens s =
     (let s1 = (case s of [] \<Rightarrow> [] | c # cs \<Rightarrow> if c = 45 then cs else s)
      in if s1 \<noteq> [] \<and> last s1 = 45 then butlast s1 else s1)"

text \<open>Steps 1 and 2 of \<^verbatim>\<open>generateUniqueSlug\<close>: the base slug of a title.\<close>

definition base_slug :: "runtime \<Rightarrow> jsstring \<Rightarrow> jsstring" where
  "base_slug rt ttl =
     (let slug0 = trim_hyphens (collapse_hyphens (strip_disallowed
                    (replace_spaces (toLowerCase rt ttl))))
      in if slug0 = [] then js ''post'' else slug0)"

text \<open>
  The query of the loop: \<^verbatim>\<open>SELECT id FROM posts WHERE slug = ? AND id != ?\<close> when
  \<^verbatim>\<open>excludeId\<close> is given and not the empty string, \<^verbatim>\<open>SELECT id FROM posts WHERE slug = ?\<close>
  otherwise; \<open>slug_in_use\<close> says that it returns a row.
\<close>

definition slug_in_use :: "post list \<Rightarrow> jsstring option \<Rightarrow> jsstring \<Rightarrow> bool" where
  "slug_in_use db excludeId s =
     (case excludeId of
        None \<Rightarrow> (\<exists>p \<in> set db. slug p = s)
      | Some e \<Rightarrow>
          if e \<noteq> [] then (\<exists>p \<in> set db. slug p = s \<and> post_id p \<noteq> e)
          else (\<exists>p \<in> set db. slug p = s))"

definition candidate :: "jsstring \<Rightarrow> nat \<Rightarrow> jsstring" where
  "candidate baseSlug suffix = baseSlug @ 45 # show_nat suffix"

text \<open>Decimal digits read back: the inverse of \<open>show_nat\<close>, used to count candidates.\<close>

definition read_nat :: "jsstring \<Rightarrow> nat" where
  "read_nat s = foldl (\<lambda>a c. 10 * a + (c - 48)) 0 s"

lemma read_show_nat: "read_nat (show_nat n) = n"
proof (induction n rule: show_nat.induct)
  case (1 n)
  show ?case
  proof (cases "n < 10")
    case True
    then show ?thesis by (simp add: show_nat.simps [of n] read_nat_def)
  next
    case False
    with 1 have "read_nat (show_nat (n div 10)) = n div 10" by simp
    with False show ?thesis
      by (simp add: show_nat.simps [of n] read_nat_def)
  qed
qed

lemma inj_show_nat: "inj show_nat"
  by (rule inj_on_inverseI [where g = read_nat]) (rule read_show_nat)

lemma inj_candidate: "inj (candidate b)"
  using inj_show_nat by (auto simp: inj_def candidate_def)

lemma slug_in_use_image: "slug_in_use db ex s \<Longrightarrow> s \<in> slug ` set db"
  by (cases ex) (auto simp: slug_in_use_def split: if_splits)

lemma finite_candidates_in_use: "finite {k. slug_in_use db ex (candidate b k)}"
proof -
  have "{k. slug_in_use db ex (candidate b k)} \<subseteq> candidate b -` (slug ` set db)"
    using slug_in_use_image by auto
  moreover have "finite (candidate b -` (slug ` set db))"
    by (rule finite_vimageI) (simp_all add: inj_candidate)
  ultimately show ?thesis by (rule finite_subset)
qed

text \<open>
  Step 3, the \<^verbatim>\<open>while (true)\<close> loop. It ends because the candidates are pairwise
  different and the table is finite: the number of candidates still ahead that are in
  use goes down.
\<close>

function slug_loop ::
  "post list \<Rightarrow> jsstring option \<Rightarrow> jsstring \<Rightarrow> jsstring \<Rightarrow> nat \<Rightarrow> jsstring" where
  "slug_loop db excludeId baseSlug s suffix =
     (if slug_in_use db excludeId s
      then slug_loop db excludeId baseSlug (candidate baseSlug suffix) (Suc suffix)
      else s)"
  by pat_completeness auto
termination
proof (relation "measure (\<lambda>(db, ex, b, s, k).
         2 * card {j. k \<le> j \<and> slug_in_use db ex (candidate b j)}
         + (if slug_in_use db ex s then 1 else 0))", goal_cases)
  case 1
  show ?case by simp
next
  case (2 db ex b s k)
  let ?A = "{j. k \<le> j \<and> slug_in_use db ex (candidate b j)}"
  let ?B = "{j. Suc k \<le> j \<and> slug_in_use db ex (candidate b j)}"
  have fin: "finite ?A"
    by (rule finite_subset [OF _ finite_candidates_in_use [of db ex b]]) auto
  show ?case
  proof (cases "slug_in_use db ex (candidate b k)")
    case True
    then have "k \<in> ?A" "k \<notin> ?B" "?B \<subseteq> ?A" by auto
    then have "?B \<subset> ?A" by blast
    then have "card ?B < card ?A" using fin by (rule psubset_card_mono [rotated])
    with 2 True show ?thesis by simp
  next
    case False
    have "j \<in> ?A \<longleftrightarrow> j \<in> ?B" for j
      using False by (cases "j = k") auto
    then have "?B = ?A" by blast
    with 2 False show ?thesis by simp
  qed
qed

declare slug_loop.simps [simp del]

definition generateUniqueSlug ::
  "runtime \<Rightarrow> post list \<Rightarrow> jsstring \<Rightarrow> jsstring option \<Rightarrow> jsstring" where
  "generateUniqueSlug rt db ttl excludeId =
     (let s = base_slug rt ttl in slug_loop db excludeId s s 1)"

section \<open>The other tables and the blob store\<close>

text \<open>Tables \<^verbatim>\<open>comments\<close> and \<^verbatim>\<open>ip_blacklist\<close> of \<^verbatim>\<open>migrations/init.sql\<close>.\<close>

record comment =
  comment_id :: jsstring
  comment_post_id :: jsstring
  author :: jsstring
  email :: jsstring
  comment_content :: jsstring
  ip_address :: jsstring
  created_at :: int
  is_approved :: nat
  parent_id :: jsstring
  reply_to :: jsstring

record blacklist_entry =
  bl_id :: jsstring
  bl_ip_address :: jsstring
  bl_reason :: jsstring
  bl_created_at :: int
  bl_expires_at :: "int option"

text \<open>
  The queries on \<^verbatim>\<open>posts\<close> that end in \<^verbatim>\<open>ORDER BY published_at ... LIMIT 1\<close>, one name
  for each SQL text: the two of \<^verbatim>\<open>generateAndStoreStaticPage\<close> (lines 2665 and 2666), the
  one of \<^verbatim>\<open>api.post('/posts')\<close> (line 2112), and the two that \<^verbatim>\<open>api.put\<close> (lines 2136,
  2137, 2180, 2181) and \<^verbatim>\<open>api.delete\<close> (lines 2217, 2218) share.
\<close>

datatype query =
  Prev_published | Next_published | Prev_published_row | Prev_any | Next_any

text \<open>
  The database \<^verbatim>\<open>env.DB\<close>: the tables the modelled handlers read or write.
  \<^verbatim>\<open>post_views\<close> and \<^verbatim>\<open>settings\<close> have a primary key and are read by key only, so they
  are association lists. The table \<^verbatim>\<open>post_images\<close>, which the post handlers rewrite
  through \<^verbatim>\<open>updatePostImageRelations\<close>, is read by none of them and is left out.

  SQL leaves two choices to the database, and the model leaves them to it as well.
  \<open>tie_order\<close> is the row that a query with \<^verbatim>\<open>ORDER BY published_at ... LIMIT 1\<close>
  returns when several rows share the extreme timestamp: it is given the query, the
  table and those rows. \<open>scan_order\<close> is the order in which a \<^verbatim>\<open>SELECT\<close> without
  \<^verbatim>\<open>ORDER BY\<close> returns the rows it has kept. No handler changes either.
\<close>

record store =
  posts :: "post list"
  comments :: "comment list"
  post_views :: "(jsstring \<times> nat) list"
  settings :: "(jsstring \<times> jsstring) list"
  ip_blacklist :: "blacklist_entry list"
  tie_order :: "query \<Rightarrow> post list \<Rightarrow> post list \<Rightarrow> post"
  scan_order :: "post list \<Rightarrow> post list"

text \<open>The bucket \<^verbatim>\<open>env.STATIC_PAGES\<close>: one HTML text per key, the key being a slug.\<close>

type_synonym blobs = "jsstring \<rightharpoonup> jsstring"

text \<open>The status of a response that is not a success.\<close>

datatype error = Status400 | Status403 | Status404 | Status429 | Status500

section \<open>The neighbour queries\<close>

text \<open>
  \<^verbatim>\<open>ORDER BY published_at DESC LIMIT 1\<close> and \<^verbatim>\<open>ORDER BY published_at ASC LIMIT 1\<close> on
  the rows a \<^verbatim>\<open>WHERE\<close> clause has kept: none when there is no row, and otherwise one of
  the rows with the greatest (the smallest) timestamp. \<open>first_of\<close> says which of these the
  database returns; an answer that is not one of them is replaced by the first in table
  order, so that the result is always a row the SQL text allows.
\<close>

definition order_desc_limit_1 :: "(post list \<Rightarrow> post) \<Rightarrow> post list \<Rightarrow> post option" where
  "order_desc_limit_1 first_of rows =
     (case filter (\<lambda>q. \<not> (\<exists>r \<in> set rows. published_at q < published_at r)) rows of
        [] \<Rightarrow> None
      | r # rs \<Rightarrow> Some (if first_of (r # rs) \<in> set (r # rs) then first_of (r # rs) else r))"

definition order_asc_limit_1 :: "(post list \<Rightarrow> post) \<Rightarrow> post list \<Rightarrow> post option" where
  "order_asc_limit_1 first_of rows =
     (case filter (\<lambda>q. \<not> (\<exists>r \<in> set rows. published_at r < published_at q)) rows of
        [] \<Rightarrow> None
      | r # rs \<Rightarrow> Some (if first_of (r # rs) \<in> set (r # rs) then first_of (r # rs) else r))"

text \<open>
  The two queries of \<^verbatim>\<open>generateAndStoreStaticPage\<close> (lines 2665 and 2666):
  \<^verbatim>\<open>SELECT title, slug FROM posts WHERE is_published = true AND published_at < ?\<close> and
  \<^verbatim>\<open>... WHERE is_published = true AND published_at > ?\<close>.
\<close>

definition select_prev_published :: "store \<Rightarrow> int \<Rightarrow> post option" where
  "select_prev_published db t =
     order_desc_limit_1 (tie_order db Prev_published (posts db))
       (filter (\<lambda>p. is_published p \<and> published_at p < t) (posts db))"

definition select_next_published :: "store \<Rightarrow> int \<Rightarrow> post option" where
  "select_next_published db t =
     order_asc_limit_1 (tie_order db Next_published (posts db))
       (filter (\<lambda>p. is_published p \<and> t < published_at p) (posts db))"

text \<open>
  The query of \<^verbatim>\<open>api.post('/posts')\<close> (line 2112):
  \<^verbatim>\<open>SELECT * FROM posts WHERE is_published = true AND published_at < ?\<close>.
\<close>

definition select_prev_published_row :: "store \<Rightarrow> int \<Rightarrow> post option" where
  "select_prev_published_row db t =
     order_desc_limit_1 (tie_order db Prev_published_row (posts db))
       (filter (\<lambda>p. is_published p \<and> published_at p < t) (posts db))"

text \<open>
  The two queries of \<^verbatim>\<open>api.put('/posts/:id')\<close> (lines 2136, 2137, 2180, 2181) and of
  \<^verbatim>\<open>api.delete('/posts/:id')\<close> (lines 2217, 2218):
  \<^verbatim>\<open>WHERE published_at < ?\<close> and \<^verbatim>\<open>WHERE published_at > ?\<close>, with no other condition.
\<close>

definition select_prev_any :: "store \<Rightarrow> int \<Rightarrow> post option" where
  "select_prev_any db t =
     order_desc_limit_1 (tie_order db Prev_any (posts db))
       (filter (\<lambda>p. published_at p < t) (posts db))"

definition select_next_any :: "store \<Rightarrow> int \<Rightarrow> post option" where
  "select_next_any db t =
     order_asc_limit_1 (tie_order db Next_any (posts db))
       (filter (\<lambda>p. t < published_at p) (posts db))"

text \<open>
  The rows that the two queries of the renderer may return: the posts with
  \<^verbatim>\<open>is_published\<close> true and a timestamp below (above) \<open>t\<close> that no other such post lies
  between.
\<close>

definition prev_candidates :: "store \<Rightarrow> int \<Rightarrow> post set" where
  "prev_candidates db t =
     {q \<in> set (posts db). is_published q \<and> published_at q < t
        \<and> \<not> (\<exists>r \<in> set (posts db).
                 is_published r \<and> published_at r < t \<and> published_at q < published_at r)}"

definition next_candidates :: "store \<Rightarrow> int \<Rightarrow> post set" where
  "next_candidates db t =
     {q \<in> set (posts db). is_published q \<and> t < published_at q
        \<and> \<not> (\<exists>r \<in> set (posts db).
                 is_published r \<and> t < published_at r \<and> published_at r < published_at q)}"

text \<open>\<^verbatim>\<open>SELECT * FROM posts WHERE id = ?\<close>, first row.\<close>

definition select_post :: "store \<Rightarrow> jsstring \<Rightarrow> post option" where
  "select_post db i = find (\<lambda>p. post_id p = i) (posts db)"

section \<open>generateAndStoreStaticPage\<close>

text \<open>\<^verbatim>\<open>x || d\<close> on a text that may be absent: the default stands in for an absent or empty one.\<close>

definition or_default :: "jsstring option \<Rightarrow> jsstring \<Rightarrow> jsstring" where
  "or_default x d = (case x of None \<Rightarrow> d | Some v \<Rightarrow> if v \<noteq> [] then v else d)"

text \<open>\<^verbatim>\<open>Array.prototype.join\<close>\<close>

fun join :: "jsstring \<Rightarrow> jsstring list \<Rightarrow> jsstring" where
  "join sep [] = []"
| "join sep [x] = x"
| "join sep (x # y # ys) = x @ sep @ join sep (y # ys)"

text \<open>
  The approved comments of a post:
  \<^verbatim>\<open>WHERE post_id = ? AND is_approved = 1 ORDER BY created_at ASC\<close>.
\<close>

definition approved_comments :: "store \<Rightarrow> jsstring \<Rightarrow> comment list" where
  "approved_comments db i =
     sort_key created_at
       (filter (\<lambda>c. comment_post_id c = i \<and> is_approved c = 1) (comments db))"

text \<open>The HTML of one comment (lines 2678 to 2689); \<open>tpl rt 30\<close> to \<open>tpl rt 38\<close> are its literal chunks.\<close>

definition comment_html :: "runtime \<Rightarrow> comment \<Rightarrow> jsstring" where
  "comment_html rt c =
     tpl rt 30 @ author c @ tpl rt 31 @ toLocaleString rt (created_at c) @ tpl rt 32
     @ (if reply_to c \<noteq> [] then tpl rt 33 @ reply_to c @ tpl rt 34 else [])
     @ tpl rt 35 @ comment_content c @ tpl rt 36 @ comment_id c @ tpl rt 37 @ author c
     @ tpl rt 38"

text \<open>
  The page of a post (lines 2659 to 2973). \<open>year\<close> is \<^verbatim>\<open>new Date().getFullYear()\<close>, the
  one reading of the clock: \<^verbatim>\<open>post.published_at || new Date().toISOString()\<close> is the
  post's own timestamp, which every row has. \<open>tpl rt 0\<close> to \<open>tpl rt 26\<close> are the literal
  chunks of the template between the interpolations, \<open>tpl rt 40\<close> to \<open>tpl rt 47\<close> those of
  the two navigation links, \<open>tpl rt 27\<close> and \<open>tpl rt 28\<close> those of the client script around
  its \<^verbatim>\<open>${post.id}\<close> (line 2748). The handlers write the
  column \<^verbatim>\<open>tags\<close> with \<^verbatim>\<open>JSON.stringify\<close> only, so \<^verbatim>\<open>JSON.parse\<close> of it returns a list.
\<close>

definition page_html :: "runtime \<Rightarrow> nat \<Rightarrow> store \<Rightarrow> post \<Rightarrow> jsstring" where
  "page_html rt year db p =
     (let bodyHtml = marked_parse rt (content p);
          publishedAt = published_at p;
          prevPost = select_prev_published db publishedAt;
          nextPost = select_next_published db publishedAt;
          subtitle = or_default (map_of (settings db) (js ''subtitle''))
                       (js ''A modern blog built with Cloudflare.'');
          blogTitle = or_default (map_of (settings db) (js ''blog_title''))
                        [25105, 30340, 21338, 23458];
          viewCount = (case map_of (post_views db) (post_id p) of None \<Rightarrow> 0 | Some n \<Rightarrow> n);
          commentsResult = approved_comments db (post_id p);
          commentsCount = length commentsResult;
          commentsHtml = (let h = concat (map (comment_html rt) commentsResult)
                          in if h \<noteq> [] then h else tpl rt 39);
          clientScript = tpl rt 27 @ post_id p @ tpl rt 28
      in tpl rt 0 @ title p @ tpl rt 1 @ blogTitle @ tpl rt 2 @ blogTitle @ tpl rt 3
         @ subtitle @ tpl rt 4 @ title p @ tpl rt 5 @ toLocaleDateString rt publishedAt
         @ tpl rt 6 @ show_nat viewCount @ tpl rt 7 @ show_nat commentsCount @ tpl rt 8
         @ (if category p \<noteq> [] then tpl rt 9 @ category p @ tpl rt 10 @ category p @ tpl rt 11
            else [])
         @ tpl rt 12 @ bodyHtml @ tpl rt 13
         @ (if tags p \<noteq> []
            then tpl rt 14
                 @ join (js '', '')
                     (map (\<lambda>tag. tpl rt 15 @ tag @ tpl rt 16 @ tag @ tpl rt 17)
                        (JSON_parse rt (tags p)))
                 @ tpl rt 18
            else [])
         @ tpl rt 19
         @ (case prevPost of
              Some q \<Rightarrow> tpl rt 40 @ slug q @ tpl rt 41 @ title q @ tpl rt 42
            | None \<Rightarrow> tpl rt 43)
         @ tpl rt 20
         @ (case nextPost of
              Some q \<Rightarrow> tpl rt 44 @ slug q @ tpl rt 45 @ title q @ tpl rt 46
            | None \<Rightarrow> tpl rt 47)
         @ tpl rt 21 @ show_nat commentsCount @ tpl rt 22 @ commentsHtml @ tpl rt 23
         @ show_nat year @ tpl rt 24 @ blogTitle @ tpl rt 25 @ clientScript @ tpl rt 26)"

text \<open>
  \<^verbatim>\<open>generateAndStoreStaticPage(env, post)\<close> called at the instant \<open>now\<close>: the page is
  put under the post's slug. A failure of the bucket is outside the model.
\<close>

definition generateAndStoreStaticPage ::
  "runtime \<Rightarrow> int \<Rightarrow> store \<Rightarrow> post \<Rightarrow> blobs \<Rightarrow> blobs" where
  "generateAndStoreStaticPage rt now db p pages =
     pages(slug p \<mapsto> page_html rt (getFullYear rt now) db p)"

text \<open>
  The background work of a handler (\<^verbatim>\<open>c.executionCtx.waitUntil\<close>): the posts it passes
  to \<^verbatim>\<open>generateAndStoreStaticPage\<close>, in order, the \<open>i\<close>-th call reading the clock at
  \<open>clock i\<close>. Every handler has finished its writes to the database when this work
  starts, so all calls see the same store.
\<close>

fun run_cascade :: "runtime \<Rightarrow> (nat \<Rightarrow> int) \<Rightarrow> store \<Rightarrow> post list \<Rightarrow> blobs \<Rightarrow> blobs" where
  "run_cascade rt clock db [] pages = pages"
| "run_cascade rt clock db (p # ps) pages =
     run_cascade rt (\<lambda>i. clock (Suc i)) db ps
       (generateAndStoreStaticPage rt (clock 0) db p pages)"

section \<open>The post handlers\<close>

text \<open>
  The JSON body of \<^verbatim>\<open>POST /api/posts\<close> and \<^verbatim>\<open>PUT /api/posts/:id\<close>: the keys of
  \<^verbatim>\<open>CreatePostInput\<close>, each present or not. \<^verbatim>\<open>api.put\<close> copies every key of the body
  into its \<^verbatim>\<open>UPDATE\<close>, so a body that carries \<^verbatim>\<open>published_at\<close> moves the post in time
  although \<^verbatim>\<open>UpdatePostInput\<close> does not list that key; \<^verbatim>\<open>api.post\<close> does not read it.
  Other keys outside the input type (\<^verbatim>\<open>id\<close>, \<^verbatim>\<open>slug\<close>) are not modelled.
\<close>

record post_input =
  in_title :: "jsstring option"
  in_content :: "jsstring option"
  in_category :: "jsstring option"
  in_tags :: "jsstring list option"
  in_feature_image :: "jsstring option"
  in_is_published :: "bool option"
  in_is_draft :: "nat option"
  in_is_pinned :: "nat option"
  in_published_at :: "int option"

text \<open>
  \<^verbatim>\<open>api.post('/posts')\<close> (lines 2072 to 2124). \<open>newId\<close> is \<^verbatim>\<open>crypto.randomUUID()\<close> and
  \<open>now\<close> the clock at \<^verbatim>\<open>new Date().toISOString()\<close>. The \<^verbatim>\<open>INSERT\<close> fails, and the handler
  answers 500, when the primary key or the \<^verbatim>\<open>UNIQUE\<close> slug is taken. The result is the
  new store and the posts handed to \<^verbatim>\<open>generateAndStoreStaticPage\<close>. The object
  \<^verbatim>\<open>newPost\<close> that is rendered carries the body's own category and no draft or pinned
  flag; the renderer reads neither flag.
\<close>

definition create_post ::
  "runtime \<Rightarrow> jsstring \<Rightarrow> int \<Rightarrow> store \<Rightarrow> post_input \<Rightarrow> error + (store \<times> post list)" where
  "create_post rt newId now db body =
     (if or_default (in_title body) [] = [] then Inl Status400
      else
        let ttl = or_default (in_title body) [];
            slug0 = generateUniqueSlug rt (posts db) ttl (Some newId);
            slug1 = (if slug0 = [] then newId else slug0);
            featureImage = or_default (in_feature_image body) (js ''/assets/banner.jpg'');
            publishedAt = now;
            row = \<lparr> post_id = newId, title = ttl, slug = slug1,
                    content = or_default (in_content body) [],
                    category = or_default (in_category body) (js ''Uncategorized''),
                    tags = JSON_stringify rt (case in_tags body of None \<Rightarrow> [] | Some ts \<Rightarrow> ts),
                    feature_image = featureImage, published_at = publishedAt,
                    is_published = (case in_is_published body of None \<Rightarrow> True | Some b \<Rightarrow> b),
                    is_draft = (case in_is_draft body of None \<Rightarrow> 0 | Some d \<Rightarrow> d),
                    is_pinned = (case in_is_pinned body of None \<Rightarrow> 0 | Some d \<Rightarrow> d) \<rparr>
        in if \<exists>p \<in> set (posts db). post_id p = newId \<or> slug p = slug1 then Inl Status500
           else
             let db' = db\<lparr>posts := posts db @ [row]\<rparr>;
                 newPost = row\<lparr>category := or_default (in_category body) []\<rparr>
             in Inr (db', newPost #
                      (case select_prev_published_row db' publishedAt of
                         None \<Rightarrow> []
                       | Some prevPost \<Rightarrow> [prevPost])))"

text \<open>
  The column values \<^verbatim>\<open>api.put\<close> writes (the object \<^verbatim>\<open>updates\<close>), laid over a row: the
  keys of the body, the slug when the title changed, the banner for a cleared feature
  image, the tags as JSON text.
\<close>

definition apply_updates :: "runtime \<Rightarrow> post_input \<Rightarrow> jsstring option \<Rightarrow> post \<Rightarrow> post" where
  "apply_updates rt body newSlug p =
     p\<lparr> title := (case in_title body of None \<Rightarrow> title p | Some t \<Rightarrow> t),
        slug := (case newSlug of None \<Rightarrow> slug p | Some s \<Rightarrow> s),
        content := (case in_content body of None \<Rightarrow> content p | Some c \<Rightarrow> c),
        category := (case in_category body of None \<Rightarrow> category p | Some c \<Rightarrow> c),
        tags := (case in_tags body of None \<Rightarrow> tags p | Some ts \<Rightarrow> JSON_stringify rt ts),
        feature_image :=
          (case in_feature_image body of
             None \<Rightarrow> feature_image p
           | Some f \<Rightarrow> if f = [] then js ''/assets/banner.jpg'' else f),
        published_at := (case in_published_at body of None \<Rightarrow> published_at p | Some t \<Rightarrow> t),
        is_published := (case in_is_published body of None \<Rightarrow> is_published p | Some b \<Rightarrow> b),
        is_draft := (case in_is_draft body of None \<Rightarrow> is_draft p | Some d \<Rightarrow> d),
        is_pinned := (case in_is_pinned body of None \<Rightarrow> is_pinned p | Some d \<Rightarrow> d) \<rparr>"

text \<open>
  The object \<^verbatim>\<open>updatedPost\<close> that \<^verbatim>\<open>api.put\<close> renders:
  \<^verbatim>\<open>{...originalPost, ...updates, tags: updates.tags || originalPost.tags,
  feature_image: updates.feature_image || originalPost.feature_image}\<close>.
\<close>

definition updatedPost_of :: "runtime \<Rightarrow> post_input \<Rightarrow> jsstring option \<Rightarrow> post \<Rightarrow> post" where
  "updatedPost_of rt body newSlug originalPost =
     (let merged = apply_updates rt body newSlug originalPost
      in merged\<lparr> tags := (if tags merged \<noteq> [] then tags merged else tags originalPost),
                 feature_image :=
                   (if feature_image merged \<noteq> [] then feature_image merged
                    else feature_image originalPost) \<rparr>)"

text \<open>\<^verbatim>\<open>Set.prototype.add\<close> on the identifiers of \<^verbatim>\<open>neighborsToUpdate\<close>, kept in insertion order.\<close>

definition set_add :: "post option \<Rightarrow> jsstring list \<Rightarrow> jsstring list" where
  "set_add q ids =
     (case q of
        None \<Rightarrow> ids
      | Some r \<Rightarrow> if post_id r \<in> set ids then ids else ids @ [post_id r])"

text \<open>
  \<^verbatim>\<open>api.put('/posts/:id')\<close> (lines 2127 to 2205). The \<^verbatim>\<open>UPDATE\<close> fails, and the handler
  answers 500, when it would give the row a slug that another row has.
\<close>

definition put_post ::
  "runtime \<Rightarrow> jsstring \<Rightarrow> store \<Rightarrow> post_input \<Rightarrow> error + (store \<times> post list)" where
  "put_post rt i db body =
     (case select_post db i of
        None \<Rightarrow> Inl Status404
      | Some originalPost \<Rightarrow>
          let originalPrev = select_prev_any db (published_at originalPost);
              originalNext = select_next_any db (published_at originalPost);
              neighborsToUpdate = set_add originalNext (set_add originalPrev []);
              newSlug =
                (case in_title body of
                   None \<Rightarrow> None
                 | Some t \<Rightarrow>
                     if t \<noteq> [] \<and> t \<noteq> title originalPost
                     then Some (generateUniqueSlug rt (posts db) t (Some i))
                     else None)
          in if \<exists>q \<in> set (posts db). post_id q \<noteq> i \<and> Some (slug q) = newSlug
             then Inl Status500
             else
               let db' = db\<lparr>posts :=
                           map (\<lambda>q. if post_id q = i then apply_updates rt body newSlug q else q)
                             (posts db)\<rparr>;
                   updatedPost = updatedPost_of rt body newSlug originalPost;
                   newPrev = select_prev_any db' (published_at updatedPost);
                   newNext = select_next_any db' (published_at updatedPost)
               in Inr (db',
                    updatedPost
                    # (case newPrev of
                         None \<Rightarrow> []
                       | Some q \<Rightarrow> if post_id q \<in> set neighborsToUpdate then [] else [q])
                    @ (case newNext of
                         None \<Rightarrow> []
                       | Some q \<Rightarrow> if post_id q \<in> set neighborsToUpdate then [] else [q])
                    @ concat (map (\<lambda>neighborId.
                                 case select_post db' neighborId of
                                   None \<Rightarrow> []
                                 | Some neighborPost \<Rightarrow> [neighborPost])
                               neighborsToUpdate)))"

text \<open>
  \<^verbatim>\<open>api.delete('/posts/:id')\<close> (lines 2208 to 2249). The \<^verbatim>\<open>DELETE\<close> takes the post's
  comments and view counter with it (\<^verbatim>\<open>ON DELETE CASCADE\<close>). The result is the new
  store, the key deleted from the bucket and the posts handed to
  \<^verbatim>\<open>generateAndStoreStaticPage\<close>.
\<close>

definition delete_post ::
  "jsstring \<Rightarrow> store \<Rightarrow> error + (store \<times> jsstring \<times> post list)" where
  "delete_post i db =
     (case select_post db i of
        None \<Rightarrow> Inl Status404
      | Some postToDelete \<Rightarrow>
          let prevPost = select_prev_any db (published_at postToDelete);
              nextPost = select_next_any db (published_at postToDelete);
              db' = db\<lparr>posts := filter (\<lambda>p. post_id p \<noteq> i) (posts db),
                       comments := filter (\<lambda>c. comment_post_id c \<noteq> i) (comments db),
                       post_views := filter (\<lambda>v. fst v \<noteq> i) (post_views db)\<rparr>
          in Inr (db', slug postToDelete,
                  (case prevPost of None \<Rightarrow> [] | Some q \<Rightarrow> [q])
                  @ (case nextPost of None \<Rightarrow> [] | Some q \<Rightarrow> [q])))"

text \<open>
  The whole effect of a successful delete on the bucket: the post's blob goes, then the
  captured neighbours are rendered against the store without the post.
\<close>

definition delete_post_pages ::
  "runtime \<Rightarrow> (nat \<Rightarrow> int) \<Rightarrow> jsstring \<Rightarrow> store \<Rightarrow> blobs \<Rightarrow> blobs" where
  "delete_post_pages rt clock i db pages =
     (case delete_post i db of
        Inl e \<Rightarrow> pages
      | Inr (db', key, regen) \<Rightarrow> run_cascade rt clock db' regen (pages(key := None)))"

text \<open>
  \<^verbatim>\<open>SELECT * FROM posts WHERE is_published = true\<close> (line 1894): the published rows, in
  the order the database returns them; an answer that is not a rearrangement of these
  rows is replaced by the table order.
\<close>

definition select_published :: "store \<Rightarrow> post list" where
  "select_published db =
     (let rows = filter (\<lambda>p. is_published p) (posts db)
      in if mset (scan_order db rows) = mset rows then scan_order db rows else rows)"

text \<open>
  \<^verbatim>\<open>api.post('/rebuild-all')\<close> (lines 1891 to 1908): the posts it hands to
  \<^verbatim>\<open>generateAndStoreStaticPage\<close>, and its effect on the bucket.
\<close>

definition rebuild_all :: "store \<Rightarrow> post list" where
  "rebuild_all db =
     (let results = select_published db
      in concat (map (\<lambda>p. if slug p \<noteq> [] then [p] else []) results))"

definition rebuild_all_pages :: "runtime \<Rightarrow> (nat \<Rightarrow> int) \<Rightarrow> store \<Rightarrow> blobs \<Rightarrow> blobs" where
  "rebuild_all_pages rt clock db pages = run_cascade rt clock db (rebuild_all db) pages"

section \<open>The comment handler\<close>

text \<open>\<^verbatim>\<open>String.prototype.trim\<close>: white space and line terminators off both ends.\<close>

definition trim :: "jsstring \<Rightarrow> jsstring" where
  "trim s = rev (dropWhile is_space (rev (dropWhile is_space s)))"

text \<open>\<^verbatim>\<open>isIpBlacklisted\<close> (lines 3029 to 3032): \<^verbatim>\<open>SELECT id FROM ip_blacklist WHERE ip_address = ?\<close>.\<close>

definition isIpBlacklisted :: "store \<Rightarrow> jsstring \<Rightarrow> bool" where
  "isIpBlacklisted db ip = (find (\<lambda>e. bl_ip_address e = ip) (ip_blacklist db) \<noteq> None)"

text \<open>The JSON body of a comment submission; an absent or null key is the empty text.\<close>

record comment_input =
  ci_author :: jsstring
  ci_content :: jsstring
  ci_email :: jsstring
  ci_parent_id :: jsstring
  ci_reply_to :: jsstring

text \<open>\<^verbatim>\<open>SELECT COUNT(*) FROM comments WHERE ip_address = ? AND created_at > ?\<close>\<close>

definition recent_comments :: "store \<Rightarrow> jsstring \<Rightarrow> int \<Rightarrow> nat" where
  "recent_comments db userIp oneMinuteAgo =
     length (filter (\<lambda>c. ip_address c = userIp \<and> created_at c > oneMinuteAgo) (comments db))"

text \<open>
  \<^verbatim>\<open>app.post('/api/posts/:postId/comments')\<close> (lines 2515 to 2600). \<open>userIp\<close> is what the
  handler reads from the request headers, \<open>now\<close> the clock at \<^verbatim>\<open>Date.now()\<close>,
  \<open>createdAt\<close> the clock at the later \<^verbatim>\<open>new Date()\<close>, \<open>commentId\<close> the fresh UUID.
\<close>

definition submit_comment ::
  "jsstring \<Rightarrow> jsstring \<Rightarrow> int \<Rightarrow> int \<Rightarrow> jsstring \<Rightarrow> store \<Rightarrow> comment_input
     \<Rightarrow> error + (store \<times> post list)" where
  "submit_comment userIp postId now createdAt commentId db body =
     (if isIpBlacklisted db userIp then Inl Status403
      else if select_post db postId = None then Inl Status404
      else if ci_author body = [] \<or> trim (ci_author body) = []
              \<or> ci_content body = [] \<or> trim (ci_content body) = [] then Inl Status400
      else if ci_parent_id body \<noteq> []
              \<and> find (\<lambda>c. comment_id c = ci_parent_id body) (comments db) = None
           then Inl Status404
      else
        let replyToName =
              (if ci_parent_id body \<noteq> []
               then (case find (\<lambda>c. comment_id c = ci_parent_id body) (comments db) of
                       Some parentComment \<Rightarrow> author parentComment
                     | None \<Rightarrow> ci_reply_to body)
               else ci_reply_to body);
            oneMinuteAgo = now - 60 * 1000
        in if recent_comments db userIp oneMinuteAgo \<ge> 3 then Inl Status429
           else
             let db' = db\<lparr>comments := comments db @
                         [\<lparr> comment_id = commentId, comment_post_id = postId,
                            author = trim (ci_author body), email = trim (ci_email body),
                            comment_content = trim (ci_content body), ip_address = userIp,
                            created_at = createdAt, is_approved = 0,
                            parent_id = ci_parent_id body, reply_to = replyToName \<rparr>]\<rparr>
             in Inr (db', (case select_post db' postId of
                             None \<Rightarrow> []
                           | Some updatedPost \<Rightarrow> [updatedPost])))"

section \<open>Reachable stores\<close>

text \<open>
  The stores that the post and comment handlers produce from a store without posts.
  A UUID and the \<^verbatim>\<open>:id\<close> segment of a route are never the empty text.
\<close>

inductive reachable :: "runtime \<Rightarrow> store \<Rightarrow> bool" for rt :: runtime where
  initial: "posts db = [] \<Longrightarrow> reachable rt db"
| created: "reachable rt db \<Longrightarrow> newId \<noteq> [] \<Longrightarrow>
            create_post rt newId now db body = Inr (db', regen) \<Longrightarrow> reachable rt db'"
| updated: "reachable rt db \<Longrightarrow> i \<noteq> [] \<Longrightarrow>
            put_post rt i db body = Inr (db', regen) \<Longrightarrow> reachable rt db'"
| deleted: "reachable rt db \<Longrightarrow> delete_post i db = Inr (db', key, regen) \<Longrightarrow> reachable rt db'"
| commented: "reachable rt db \<Longrightarrow>
              submit_comment userIp postId now createdAt commentId db cbody = Inr (db', regen) \<Longrightarrow>
              reachable rt db'"

text \<open>
  What the handlers keep true of the table \<^verbatim>\<open>posts\<close>: the primary key and the slug are
  unique and neither is empty.
\<close>

definition store_invariant :: "store \<Rightarrow> bool" where
  "store_invariant db \<longleftrightarrow>
     distinct (map post_id (posts db)) \<and> distinct (map slug (posts db))
     \<and> (\<forall>p \<in> set (posts db). post_id p \<noteq> [] \<and> slug p \<noteq> [])"

section \<open>A runtime and stores for the examples\<close>

definition ascii_lower :: "jsstring \<Rightarrow> jsstring" where
  "ascii_lower s = map (\<lambda>c. if 65 \<le> c \<and> c \<le> 90 then c + 32 else c) s"

definition example_runtime :: runtime where
  "example_runtime =
     \<lparr> toLowerCase = ascii_lower, marked_parse = (\<lambda>s. s),
       toLocaleString = (\<lambda>t. show_nat (nat t)),
       toLocaleDateString = (\<lambda>t. show_nat (nat (t div 86400000))),
       getFullYear = (\<lambda>t. 1970 + nat (t div 31556952000)),
       JSON_stringify = (\<lambda>ts. [91] @ join [44] (map (\<lambda>t. [34] @ t @ [34]) ts) @ [93]),
       JSON_parse = (\<lambda>s. [s]),
       tpl = (\<lambda>i. [60, 48 + i mod 10, 62]) \<rparr>"

definition no_input :: post_input where
  "no_input =
     \<lparr> in_title = None, in_content = None, in_category = None, in_tags = None,
       in_feature_image = None, in_is_published = None, in_is_draft = None,
       in_is_pinned = None, in_published_at = None \<rparr>"

definition example_post :: "string \<Rightarrow> int \<Rightarrow> bool \<Rightarrow> nat \<Rightarrow> post" where
  "example_post name t pub draft =
     \<lparr> post_id = js (''id-'' @ name), title = js name, slug = js name, content = [],
       category = [], tags = [], feature_image = [], published_at = t,
       is_published = pub, is_draft = draft, is_pinned = 0 \<rparr>"

text \<open>The row \<^verbatim>\<open>api.post('/posts')\<close> stores for a body that has a title only.\<close>

definition example_row :: "string \<Rightarrow> string \<Rightarrow> string \<Rightarrow> int \<Rightarrow> post" where
  "example_row i ttl s t =
     \<lparr> post_id = js i, title = js ttl, slug = js s, content = [],
       category = js ''Uncategorized'', tags = js ''[]'', feature_image = js ''/assets/banner.jpg'',
       published_at = t, is_published = True, is_draft = 0, is_pinned = 0 \<rparr>"

definition example_store :: "post list \<Rightarrow> store" where
  "example_store ps =
     \<lparr> posts = ps, comments = [], post_views = [], settings = [], ip_blacklist = [],
       tie_order = (\<lambda>q tbl rows. hd rows), scan_order = (\<lambda>rows. rows) \<rparr>"

definition example_comment :: "string \<Rightarrow> string \<Rightarrow> string \<Rightarrow> int \<Rightarrow> comment" where
  "example_comment name pname ip t =
     \<lparr> comment_id = js name, comment_post_id = js (''id-'' @ pname), author = js ''ann'',
       email = [], comment_content = js ''hi'', ip_address = js ip, created_at = t,
       is_approved = 0, parent_id = [], reply_to = [] \<rparr>"

definition example_body :: comment_input where
  "example_body =
     \<lparr> ci_author = js ''ann'', ci_content = js ''hi'', ci_email = [], ci_parent_id = [],
       ci_reply_to = [] \<rparr>"

text \<open>The defining equations that evaluate the model on a concrete input.\<close>

lemmas eval_defs = js_def is_space_def allowed_def strip_disallowed_def trim_hyphens_def
  base_slug_def slug_in_use_def candidate_def generateUniqueSlug_def slug_loop.simps
  show_nat.simps example_runtime_def ascii_lower_def example_post_def example_store_def
  example_comment_def example_body_def example_row_def
  no_input_def order_desc_limit_1_def order_asc_limit_1_def select_prev_published_def
  select_next_published_def select_prev_published_row_def select_prev_any_def
  select_next_any_def select_post_def select_published_def
  or_default_def set_add_def apply_updates_def updatedPost_of_def put_post_def create_post_def delete_post_def
  rebuild_all_def trim_def isIpBlacklisted_def recent_comments_def submit_comment_def Let_def

section \<open>What the slug generator returns\<close>

lemma js_post: "js ''post'' = [112, 111, 115, 116]"
  by (simp add: js_def)

lemma hyphen_not_space: "\<not> is_space 45"
  by (simp add: is_space_def)

lemma replace_spaces_no_space: "c \<in> set (replace_spaces s) \<Longrightarrow> \<not> is_space c"
proof (induction s rule: replace_spaces.induct)
  case 1
  then show ?case by simp
next
  case (2 d ds)
  then show ?case by (auto simp: hyphen_not_space split: if_splits)
qed

lemma replace_spaces_id: "\<forall>c \<in> set s. \<not> is_space c \<Longrightarrow> replace_spaces s = s"
  by (induction s) auto

lemma replace_spaces_run:
  assumes "ws \<noteq> []" "\<forall>c \<in> set ws. is_space c" "\<forall>c \<in> set u. \<not> is_space c"
    and "v = [] \<or> \<not> is_space (hd v)"
  shows "replace_spaces (u @ ws @ v) = u @ 45 # replace_spaces v"
  using assms
proof (induction u)
  case Nil
  then obtain w ws' where ws: "ws = w # ws'" by (cases ws) auto
  with Nil have "dropWhile is_space (ws' @ v) = v"
    by (cases v) (auto simp: dropWhile_append)
  with Nil ws show ?case by simp
next
  case (Cons a u)
  then show ?case by simp
qed

lemma collapse_member: "c \<in> set (collapse_hyphens s) \<Longrightarrow> c \<in> set s"
proof (induction s rule: collapse_hyphens.induct)
  case 1
  then show ?case by simp
next
  case (2 d ds)
  show ?case
  proof (cases "d = 45")
    case True
    with 2 show ?thesis by (auto dest: set_dropWhileD)
  next
    case False
    with 2 show ?thesis by auto
  qed
qed

lemma collapse_hd: "collapse_hyphens s \<noteq> [] \<Longrightarrow> s \<noteq> [] \<and> hd (collapse_hyphens s) = hd s"
  by (cases s) auto

lemma collapse_no_double: "no_double_hyphen (collapse_hyphens s)"
proof (induction s rule: collapse_hyphens.induct)
  case 1
  then show ?case by simp
next
  case (2 c cs)
  show ?case
  proof (cases "c = 45")
    case True
    let ?r = "dropWhile (\<lambda>d. d = 45) cs"
    have "?r = [] \<or> hd ?r \<noteq> 45" using hd_dropWhile [of "\<lambda>d. d = 45" cs] by auto
    then have "collapse_hyphens ?r = [] \<or> hd (collapse_hyphens ?r) \<noteq> 45"
      using collapse_hd [of ?r] by auto
    with 2 True show ?thesis by (cases "collapse_hyphens ?r") auto
  next
    case False
    with 2 show ?thesis by (cases "collapse_hyphens cs") auto
  qed
qed

lemma collapse_run:
  assumes "\<forall>c \<in> set u. c \<noteq> 45" "0 < n" "v = [] \<or> hd v \<noteq> 45"
  shows "collapse_hyphens (u @ replicate n 45 @ v) = u @ 45 # collapse_hyphens v"
  using assms
proof (induction u)
  case Nil
  then obtain m where n: "n = Suc m" by (cases n) auto
  from Nil have "dropWhile (\<lambda>d. d = 45) (replicate m 45 @ v) = v"
    by (cases v) (auto simp: dropWhile_append)
  with n show ?case by simp
next
  case (Cons a u)
  then show ?case by simp
qed

lemma no_double_nth:
  "no_double_hyphen s \<Longrightarrow> Suc i < length s \<Longrightarrow> s ! i = 45 \<Longrightarrow> s ! Suc i \<noteq> 45"
proof (induction s arbitrary: i rule: no_double_hyphen.induct)
  case (1 a b cs)
  then show ?case by (cases i) auto
qed auto

lemma no_double_tl: "no_double_hyphen (c # cs) \<Longrightarrow> no_double_hyphen cs"
  by (cases cs) auto

lemma no_double_butlast: "no_double_hyphen s \<Longrightarrow> no_double_hyphen (butlast s)"
proof (induction s rule: no_double_hyphen.induct)
  case (1 a b cs)
  then show ?case by (cases cs) auto
qed auto

lemma trim_hyphens_ends:
  assumes "no_double_hyphen s" "trim_hyphens s \<noteq> []"
  shows "hd (trim_hyphens s) \<noteq> 45 \<and> last (trim_hyphens s) \<noteq> 45"
proof -
  define s1 where "s1 = (case s of [] \<Rightarrow> [] | c # cs \<Rightarrow> if c = 45 then cs else s)"
  have t: "trim_hyphens s = (if s1 \<noteq> [] \<and> last s1 = 45 then butlast s1 else s1)"
    by (simp add: trim_hyphens_def s1_def)
  have nd: "no_double_hyphen s1"
    using assms(1) by (auto simp: s1_def split: list.splits dest: no_double_tl)
  have h1: "s1 \<noteq> [] \<Longrightarrow> hd s1 \<noteq> 45"
  proof (cases s)
    case Nil
    then show "s1 \<noteq> [] \<Longrightarrow> hd s1 \<noteq> 45" by (simp add: s1_def)
  next
    case (Cons c cs)
    assume ne: "s1 \<noteq> []"
    show "hd s1 \<noteq> 45"
    proof (cases "c = 45")
      case True
      with Cons ne have "s1 = cs" "cs \<noteq> []" by (auto simp: s1_def)
      with assms(1) Cons True show ?thesis by (cases cs) auto
    next
      case False
      with Cons show ?thesis by (simp add: s1_def)
    qed
  qed
  show ?thesis
  proof (cases "s1 \<noteq> [] \<and> last s1 = 45")
    case True
    with t assms(2) have r: "trim_hyphens s = butlast s1" "butlast s1 \<noteq> []" by auto
    then have len: "2 \<le> length s1" by (cases s1) (auto simp: Suc_le_eq)
    have "hd (butlast s1) = hd s1" using r(2) by (cases s1) auto
    moreover have "last (butlast s1) \<noteq> 45"
    proof
      assume "last (butlast s1) = 45"
      then have "s1 ! (length s1 - 2) = 45"
        using len r(2) by (simp add: last_conv_nth nth_butlast numeral_2_eq_2)
      moreover have "Suc (length s1 - 2) < length s1" using len by simp
      ultimately have "s1 ! Suc (length s1 - 2) \<noteq> 45" using nd no_double_nth by blast
      moreover have "Suc (length s1 - 2) = length s1 - 1" using len by simp
      ultimately have "s1 ! (length s1 - 1) \<noteq> 45" by simp
      moreover have "s1 \<noteq> []" using len by auto
      then have "last s1 = s1 ! (length s1 - 1)" by (rule last_conv_nth)
      ultimately show False using True by simp
    qed
    ultimately show ?thesis using r h1 True by simp
  next
    case False
    with t assms(2) h1 show ?thesis by auto
  qed
qed

lemma trim_hyphens_member: "c \<in> set (trim_hyphens s) \<Longrightarrow> c \<in> set s"
  by (auto simp: trim_hyphens_def Let_def split: list.splits if_splits dest: in_set_butlastD)

lemma trim_hyphens_no_double:
  assumes "no_double_hyphen s"
  shows "no_double_hyphen (trim_hyphens s)"
proof -
  define s1 where "s1 = (case s of [] \<Rightarrow> [] | c # cs \<Rightarrow> if c = 45 then cs else s)"
  have "no_double_hyphen s1"
    using assms by (auto simp: s1_def split: list.splits dest: no_double_tl)
  moreover have "trim_hyphens s = (if s1 \<noteq> [] \<and> last s1 = 45 then butlast s1 else s1)"
    by (simp add: trim_hyphens_def s1_def)
  ultimately show ?thesis by (simp add: no_double_butlast)
qed

lemma base_slug_nonempty: "base_slug rt ttl \<noteq> []"
  by (simp add: base_slug_def Let_def js_post)

lemma base_slug_allowed: "c \<in> set (base_slug rt ttl) \<Longrightarrow> allowed c"
proof (cases "trim_hyphens (collapse_hyphens (strip_disallowed
                    (replace_spaces (toLowerCase rt ttl)))) = []")
  case True
  assume "c \<in> set (base_slug rt ttl)"
  with True have "c \<in> {112, 111, 115, 116}" by (simp add: base_slug_def js_post)
  then show ?thesis by (auto simp: allowed_def)
next
  case False
  assume "c \<in> set (base_slug rt ttl)"
  with False have "c \<in> set (strip_disallowed (replace_spaces (toLowerCase rt ttl)))"
    by (auto simp: base_slug_def dest!: trim_hyphens_member collapse_member)
  then show ?thesis by (simp add: strip_disallowed_def)
qed

lemma base_slug_no_double: "no_double_hyphen (base_slug rt ttl)"
  by (simp add: base_slug_def Let_def js_post trim_hyphens_no_double collapse_no_double)

lemma base_slug_ends: "hd (base_slug rt ttl) \<noteq> 45 \<and> last (base_slug rt ttl) \<noteq> 45"
  by (simp add: base_slug_def Let_def js_post trim_hyphens_ends collapse_no_double)

lemma slug_loop_free: "\<not> slug_in_use db ex (slug_loop db ex b s k)"
proof (induction db ex b s k rule: slug_loop.induct)
  case (1 db ex b s k)
  then show ?case by (simp add: slug_loop.simps [of db ex b s k])
qed

lemma slug_loop_first:
  "slug_loop db ex b s k = s \<and> \<not> slug_in_use db ex s
   \<or> (\<exists>j\<ge>k. slug_loop db ex b s k = candidate b j \<and> slug_in_use db ex s
         \<and> (\<forall>i. k \<le> i \<and> i < j \<longrightarrow> slug_in_use db ex (candidate b i)))"
proof (induction db ex b s k rule: slug_loop.induct)
  case (1 db ex b s k)
  show ?case
  proof (cases "slug_in_use db ex s")
    case False
    then show ?thesis by (simp add: slug_loop.simps [of db ex b s k])
  next
    case True
    then have eq: "slug_loop db ex b s k = slug_loop db ex b (candidate b k) (Suc k)"
      by (simp add: slug_loop.simps [of db ex b s k])
    from 1 [OF True] consider
        (a) "slug_loop db ex b (candidate b k) (Suc k) = candidate b k"
      | (b) j where "Suc k \<le> j" "slug_loop db ex b (candidate b k) (Suc k) = candidate b j"
          "slug_in_use db ex (candidate b k)"
          "\<forall>i. Suc k \<le> i \<and> i < j \<longrightarrow> slug_in_use db ex (candidate b i)"
      by blast
    then show ?thesis
    proof cases
      case a
      with eq True show ?thesis by (intro disjI2 exI [of _ k]) auto
    next
      case b
      have "\<forall>i. k \<le> i \<and> i < j \<longrightarrow> slug_in_use db ex (candidate b i)"
      proof (intro allI impI)
        fix i assume "k \<le> i \<and> i < j"
        then show "slug_in_use db ex (candidate b i)"
          using b(3,4) by (cases "i = k") auto
      qed
      with b eq True show ?thesis by (intro disjI2 exI [of _ j]) simp
    qed
  qed
qed

lemma not_in_use_iff:
  "\<not> slug_in_use db ex s \<longleftrightarrow>
     (\<forall>p \<in> set db. slug p = s \<longrightarrow> ex = Some (post_id p) \<and> post_id p \<noteq> [])"
  by (cases ex) (auto simp: slug_in_use_def)

lemma slug_loop_nonempty: "s \<noteq> [] \<Longrightarrow> slug_loop db ex b s k \<noteq> []"
proof (induction db ex b s k rule: slug_loop.induct)
  case (1 db ex b s k)
  then show ?case by (simp add: slug_loop.simps [of db ex b s k] candidate_def)
qed

text \<open>
  C6. \<^verbatim>\<open>generateUniqueSlug(title, excludeId)\<close>: the base slug is the lower-cased title
  with white space runs replaced by one hyphen, the characters outside the allow-list
  removed, hyphen runs collapsed and the hyphens at both ends trimmed, or \<^verbatim>\<open>post\<close> when
  nothing is left; it is never empty, holds allowed characters only, has no two hyphens
  in a row and none at either end. The result is the base slug when no other post has
  it, and otherwise the base slug with the first suffix \<open>-k\<close>, \<open>k = 1, 2, ...\<close>, that no
  other post has; the result is never empty and a post that has it is the excluded one.
\<close>

theorem generateUniqueSlug_spec:
  "(let b = base_slug rt ttl; r = generateUniqueSlug rt db ttl ex
    in b = (let s0 = trim_hyphens (collapse_hyphens (strip_disallowed
                       (replace_spaces (toLowerCase rt ttl))))
            in if s0 = [] then js ''post'' else s0)
       \<and> (\<forall>u ws v. ws \<noteq> [] \<and> (\<forall>c \<in> set ws. is_space c) \<and> (\<forall>c \<in> set u. \<not> is_space c)
              \<and> (v = [] \<or> \<not> is_space (hd v))
              \<longrightarrow> replace_spaces (u @ ws @ v) = u @ js ''-'' @ replace_spaces v)
       \<and> (\<forall>u n v. (\<forall>c \<in> set u. c \<noteq> 45) \<and> 0 < n \<and> (v = [] \<or> hd v \<noteq> 45)
              \<longrightarrow> collapse_hyphens (u @ replicate n 45 @ v) = u @ js ''-'' @ collapse_hyphens v)
       \<and> b \<noteq> [] \<and> (\<forall>c \<in> set b. allowed c) \<and> no_double_hyphen b
       \<and> hd b \<noteq> 45 \<and> last b \<noteq> 45
       \<and> r \<noteq> []
       \<and> (\<forall>p \<in> set db. slug p = r \<longrightarrow> ex = Some (post_id p) \<and> post_id p \<noteq> [])
       \<and> (r = b \<and> \<not> slug_in_use db ex b
           \<or> (\<exists>k\<ge>1. r = b @ js ''-'' @ show_nat k \<and> slug_in_use db ex b
                  \<and> (\<forall>j. 1 \<le> j \<and> j < k \<longrightarrow> slug_in_use db ex (b @ js ''-'' @ show_nat j)))))"
proof -
  have hy: "js ''-'' = [45]" by (simp add: js_def)
  have 1: "base_slug rt ttl =
      (let s0 = trim_hyphens (collapse_hyphens (strip_disallowed
                       (replace_spaces (toLowerCase rt ttl))))
            in if s0 = [] then js ''post'' else s0)"
    by (simp add: base_slug_def)
  have 2: "\<forall>u ws v. ws \<noteq> [] \<and> (\<forall>c \<in> set ws. is_space c) \<and> (\<forall>c \<in> set u. \<not> is_space c)
              \<and> (v = [] \<or> \<not> is_space (hd v))
              \<longrightarrow> replace_spaces (u @ ws @ v) = u @ js ''-'' @ replace_spaces v"
    using replace_spaces_run by (simp add: hy)
  have 3: "\<forall>u n v. (\<forall>c \<in> set u. c \<noteq> 45) \<and> 0 < n \<and> (v = [] \<or> hd v \<noteq> 45)
              \<longrightarrow> collapse_hyphens (u @ replicate n 45 @ v) = u @ js ''-'' @ collapse_hyphens v"
    using collapse_run by (simp add: hy)
  have 4: "generateUniqueSlug rt db ttl ex \<noteq> []"
    by (simp add: generateUniqueSlug_def Let_def slug_loop_nonempty base_slug_nonempty)
  have 5: "\<forall>p \<in> set db. slug p = generateUniqueSlug rt db ttl ex
             \<longrightarrow> ex = Some (post_id p) \<and> post_id p \<noteq> []"
    using slug_loop_free [of db ex "base_slug rt ttl" "base_slug rt ttl" 1]
    unfolding not_in_use_iff by (simp add: generateUniqueSlug_def Let_def)
  have 6: "generateUniqueSlug rt db ttl ex = base_slug rt ttl
             \<and> \<not> slug_in_use db ex (base_slug rt ttl)
           \<or> (\<exists>k\<ge>1. generateUniqueSlug rt db ttl ex = base_slug rt ttl @ js ''-'' @ show_nat k
                 \<and> slug_in_use db ex (base_slug rt ttl)
                 \<and> (\<forall>j. 1 \<le> j \<and> j < k
                       \<longrightarrow> slug_in_use db ex (base_slug rt ttl @ js ''-'' @ show_nat j)))"
    using slug_loop_first [of db ex "base_slug rt ttl" "base_slug rt ttl" 1]
    by (simp add: generateUniqueSlug_def Let_def candidate_def hy)
  show ?thesis
    unfolding Let_def
    using 1 2 3 4 5 6 base_slug_nonempty [of rt ttl] base_slug_allowed [of _ rt ttl]
      base_slug_no_double [of rt ttl] base_slug_ends [of rt ttl]
    by (intro conjI) (simp_all only: Let_def, blast+)
qed

theorem generateUniqueSlug_spec_witness:
  "base_slug example_runtime (js ''Hello  World!'') = js ''hello-world''
   \<and> slug_in_use [example_post ''hello-world'' 1 True 0] (Some (js ''x'')) (js ''hello-world'')
   \<and> generateUniqueSlug example_runtime [example_post ''hello-world'' 1 True 0]
        (js ''Hello  World!'') (Some (js ''x'')) = js ''hello-world-1''
   \<and> generateUniqueSlug example_runtime [example_post ''hello-world'' 1 True 0]
        (js ''Hello  World!'') (Some (js ''id-hello-world'')) = js ''hello-world''"
  using generateUniqueSlug_spec [of example_runtime "js ''Hello  World!''"
      "[example_post ''hello-world'' 1 True 0]" "Some (js ''x'')"]
  by (simp add: eval_defs)

section \<open>The comment handler: blacklist and rate limit\<close>

lemma isIpBlacklisted_iff:
  "isIpBlacklisted db ip \<longleftrightarrow> (\<exists>e \<in> set (ip_blacklist db). bl_ip_address e = ip)"
  by (auto simp: isIpBlacklisted_def find_None_iff)

text \<open>
  C10. A comment submission from an address that has any row in \<^verbatim>\<open>ip_blacklist\<close> is
  answered 403, whatever the row's \<^verbatim>\<open>expires_at\<close> and whatever the clock, the post and
  the body are: \<^verbatim>\<open>isIpBlacklisted\<close> is true exactly when a row has the address.
\<close>

theorem blacklist_ignores_expiry:
  "(isIpBlacklisted db ip \<longleftrightarrow> (\<exists>e \<in> set (ip_blacklist db). bl_ip_address e = ip))
   \<and> (e \<in> set (ip_blacklist db) \<and> bl_ip_address e = userIp
        \<longrightarrow> submit_comment userIp postId now createdAt commentId db body = Inl Status403)"
  using isIpBlacklisted_iff [of db] by (auto simp: submit_comment_def)

theorem blacklist_ignores_expiry_witness:
  "bl_expires_at \<lparr> bl_id = [], bl_ip_address = js ''10.0.0.1'', bl_reason = [],
                    bl_created_at = 0, bl_expires_at = Some 5 \<rparr> = Some 5
   \<and> (5::int) < 1000000
   \<and> submit_comment (js ''10.0.0.1'') (js ''id-a'') 1000000 1000001 (js ''c1'')
        ((example_store [example_post ''a'' 1 True 0])
           \<lparr>ip_blacklist := [\<lparr> bl_id = [], bl_ip_address = js ''10.0.0.1'', bl_reason = [],
                                bl_created_at = 0, bl_expires_at = Some 5 \<rparr>]\<rparr>)
        example_body
       = Inl Status403"
  using blacklist_ignores_expiry [of
      "(example_store [example_post ''a'' 1 True 0])
           \<lparr>ip_blacklist := [\<lparr> bl_id = [], bl_ip_address = js ''10.0.0.1'', bl_reason = [],
                                bl_created_at = 0, bl_expires_at = Some 5 \<rparr>]\<rparr>"
      "js ''10.0.0.1''"
      "\<lparr> bl_id = [], bl_ip_address = js ''10.0.0.1'', bl_reason = [],
                    bl_created_at = 0, bl_expires_at = Some 5 \<rparr>"
      "js ''10.0.0.1''" "js ''id-a''" 1000000 1000001 "js ''c1''"
      "example_body"]
  by (simp add: example_store_def)
lemma trim_nonempty: "trim s \<noteq> [] \<Longrightarrow> s \<noteq> []"
  by (auto simp: trim_def)

text \<open>
  C8, as the handler has it. A submission that the earlier checks let through (the
  address is not blacklisted, the post exists, author and content are not blank, the
  parent comment exists when one is named) is answered 429 and inserts nothing when the
  address has 3 or more comments created after \<open>now - 60000\<close>, and otherwise succeeds
  and appends exactly one unapproved comment from that address; so it succeeds when all
  the address's comments are a minute old or older. Whatever the checks say, no
  submission from an address with 3 or more such comments succeeds.
\<close>

theorem rate_limit_after_checks:
  "(3 \<le> recent_comments db userIp (now - 60 * 1000)
      \<longrightarrow> (\<exists>e. submit_comment userIp postId now createdAt commentId db body = Inl e))
   \<and> (\<not> isIpBlacklisted db userIp \<and> select_post db postId \<noteq> None
        \<and> trim (ci_author body) \<noteq> [] \<and> trim (ci_content body) \<noteq> []
        \<and> (ci_parent_id body = []
             \<or> find (\<lambda>c. comment_id c = ci_parent_id body) (comments db) \<noteq> None)
      \<longrightarrow> (3 \<le> recent_comments db userIp (now - 60 * 1000)
             \<longrightarrow> submit_comment userIp postId now createdAt commentId db body
                   = Inl Status429)
          \<and> (recent_comments db userIp (now - 60 * 1000) < 3
                 \<or> (\<forall>c \<in> set (comments db).
                       ip_address c = userIp \<longrightarrow> created_at c \<le> now - 60 * 1000)
             \<longrightarrow> (\<exists>db' regen c.
                    submit_comment userIp postId now createdAt commentId db body
                      = Inr (db', regen)
                    \<and> comments db' = comments db @ [c] \<and> posts db' = posts db
                    \<and> comment_id c = commentId \<and> comment_post_id c = postId
                    \<and> ip_address c = userIp \<and> created_at c = createdAt
                    \<and> is_approved c = 0)))"
proof -
  have window: "recent_comments db userIp (now - 60 * 1000) = 0"
    if "\<forall>c \<in> set (comments db). ip_address c = userIp \<longrightarrow> created_at c \<le> now - 60 * 1000"
  proof -
    have "filter (\<lambda>c. ip_address c = userIp \<and> created_at c > now - 60 * 1000) (comments db) = []"
      using that by (auto simp: filter_empty_conv)
    then show ?thesis by (simp add: recent_comments_def)
  qed
  have a: "3 \<le> recent_comments db userIp (now - 60 * 1000)
      \<longrightarrow> (\<exists>e. submit_comment userIp postId now createdAt commentId db body = Inl e)"
    by (simp add: submit_comment_def Let_def)
  have b: "submit_comment userIp postId now createdAt commentId db body = Inl Status429"
    if "\<not> isIpBlacklisted db userIp" "select_post db postId \<noteq> None"
       "trim (ci_author body) \<noteq> []" "trim (ci_content body) \<noteq> []"
       "ci_parent_id body = []
         \<or> find (\<lambda>c. comment_id c = ci_parent_id body) (comments db) \<noteq> None"
       "3 \<le> recent_comments db userIp (now - 60 * 1000)"
    using that trim_nonempty [of "ci_author body"] trim_nonempty [of "ci_content body"]
    by (auto simp: submit_comment_def Let_def)
  have c: "\<exists>db' regen c.
                    submit_comment userIp postId now createdAt commentId db body
                      = Inr (db', regen)
                    \<and> comments db' = comments db @ [c] \<and> posts db' = posts db
                    \<and> comment_id c = commentId \<and> comment_post_id c = postId
                    \<and> ip_address c = userIp \<and> created_at c = createdAt
                    \<and> is_approved c = 0"
    if "\<not> isIpBlacklisted db userIp" "select_post db postId \<noteq> None"
       "trim (ci_author body) \<noteq> []" "trim (ci_content body) \<noteq> []"
       "ci_parent_id body = []
         \<or> find (\<lambda>c. comment_id c = ci_parent_id body) (comments db) \<noteq> None"
       "recent_comments db userIp (now - 60 * 1000) < 3"
    using that trim_nonempty [of "ci_author body"] trim_nonempty [of "ci_content body"]
    by (auto simp: submit_comment_def Let_def)
  show ?thesis using a b c window by (metis zero_less_numeral)
qed
theorem rate_limit_after_checks_witness:
  "submit_comment (js ''10.0.0.2'') (js ''id-a'') 4000 4001 (js ''c3'')
     ((example_store [example_post ''a'' 1 True 0])
        \<lparr>comments := [example_comment ''c0'' ''a'' ''10.0.0.2'' 1000,
                      example_comment ''c1'' ''a'' ''10.0.0.2'' 2000]\<rparr>)
     example_body
   = Inr ((example_store [example_post ''a'' 1 True 0])
            \<lparr>comments := [example_comment ''c0'' ''a'' ''10.0.0.2'' 1000,
                          example_comment ''c1'' ''a'' ''10.0.0.2'' 2000,
                          example_comment ''c3'' ''a'' ''10.0.0.2'' 4001]\<rparr>,
          [example_post ''a'' 1 True 0])
   \<and> submit_comment (js ''10.0.0.2'') (js ''id-a'') 5000 5001 (js ''c4'')
       ((example_store [example_post ''a'' 1 True 0])
          \<lparr>comments := [example_comment ''c0'' ''a'' ''10.0.0.2'' 1000,
                        example_comment ''c1'' ''a'' ''10.0.0.2'' 2000,
                        example_comment ''c3'' ''a'' ''10.0.0.2'' 4001]\<rparr>)
       example_body
     = Inl Status429
   \<and> submit_comment (js ''10.0.0.2'') (js ''id-a'') 64001 64002 (js ''c5'')
       ((example_store [example_post ''a'' 1 True 0])
          \<lparr>comments := [example_comment ''c0'' ''a'' ''10.0.0.2'' 1000,
                        example_comment ''c1'' ''a'' ''10.0.0.2'' 2000,
                        example_comment ''c3'' ''a'' ''10.0.0.2'' 4001]\<rparr>)
       example_body
     = Inr ((example_store [example_post ''a'' 1 True 0])
              \<lparr>comments := [example_comment ''c0'' ''a'' ''10.0.0.2'' 1000,
                            example_comment ''c1'' ''a'' ''10.0.0.2'' 2000,
                            example_comment ''c3'' ''a'' ''10.0.0.2'' 4001,
                            example_comment ''c5'' ''a'' ''10.0.0.2'' 64002]\<rparr>,
            [example_post ''a'' 1 True 0])"
  using rate_limit_after_checks [of
      "(example_store [example_post ''a'' 1 True 0])
          \<lparr>comments := [example_comment ''c0'' ''a'' ''10.0.0.2'' 1000,
                        example_comment ''c1'' ''a'' ''10.0.0.2'' 2000,
                        example_comment ''c3'' ''a'' ''10.0.0.2'' 4001]\<rparr>"
      "js ''10.0.0.2''" 5000 "js ''id-a''" 5001 "js ''c4''" example_body]
  by (simp add: eval_defs)

text \<open>
  C8 as it is stated fails: a submission with a blank author from an address that has
  three comments in the last minute is answered 400, not 429.
\<close>

theorem rate_limit_counterexample:
  "3 \<le> recent_comments
          ((example_store [example_post ''a'' 1 True 0])
             \<lparr>comments := [example_comment ''c0'' ''a'' ''10.0.0.2'' 1000,
                           example_comment ''c1'' ''a'' ''10.0.0.2'' 2000,
                           example_comment ''c3'' ''a'' ''10.0.0.2'' 4001]\<rparr>)
          (js ''10.0.0.2'') (5000 - 60 * 1000)
   \<and> submit_comment (js ''10.0.0.2'') (js ''id-a'') 5000 5001 (js ''c4'')
       ((example_store [example_post ''a'' 1 True 0])
          \<lparr>comments := [example_comment ''c0'' ''a'' ''10.0.0.2'' 1000,
                        example_comment ''c1'' ''a'' ''10.0.0.2'' 2000,
                        example_comment ''c3'' ''a'' ''10.0.0.2'' 4001]\<rparr>)
       (example_body\<lparr>ci_author := js ''  ''\<rparr>)
     = Inl Status400
   \<and> Inl Status400 \<noteq> (Inl Status429 :: error + store \<times> post list)"
  by (simp add: eval_defs)

section \<open>What the neighbour queries return\<close>

lemma ex_latest:
  "rows \<noteq> [] \<Longrightarrow> \<exists>q \<in> set rows. \<not> (\<exists>r \<in> set rows. published_at q < published_at r)"
proof (induction rows)
  case Nil
  then show ?case by simp
next
  case (Cons a rows)
  show ?case
  proof (cases "rows = []")
    case True
    then show ?thesis by simp
  next
    case False
    with Cons.IH obtain q where q: "q \<in> set rows"
        "\<not> (\<exists>r \<in> set rows. published_at q < published_at r)" by blast
    show ?thesis
    proof (cases "published_at q < published_at a")
      case True
      with q have "\<not> (\<exists>r \<in> set (a # rows). published_at a < published_at r)" by force
      then show ?thesis by (intro bexI [of _ a]) simp_all
    next
      case False
      with q have "\<not> (\<exists>r \<in> set (a # rows). published_at q < published_at r)" by auto
      with q(1) show ?thesis by (intro bexI [of _ q]) simp_all
    qed
  qed
qed

lemma ex_earliest:
  "rows \<noteq> [] \<Longrightarrow> \<exists>q \<in> set rows. \<not> (\<exists>r \<in> set rows. published_at r < published_at q)"
proof (induction rows)
  case Nil
  then show ?case by simp
next
  case (Cons a rows)
  show ?case
  proof (cases "rows = []")
    case True
    then show ?thesis by simp
  next
    case False
    with Cons.IH obtain q where q: "q \<in> set rows"
        "\<not> (\<exists>r \<in> set rows. published_at r < published_at q)" by blast
    show ?thesis
    proof (cases "published_at a < published_at q")
      case True
      with q have "\<not> (\<exists>r \<in> set (a # rows). published_at r < published_at a)" by force
      then show ?thesis by (intro bexI [of _ a]) simp_all
    next
      case False
      with q have "\<not> (\<exists>r \<in> set (a # rows). published_at r < published_at q)" by auto
      with q(1) show ?thesis by (intro bexI [of _ q]) simp_all
    qed
  qed
qed

lemma order_desc_limit_1_None: "order_desc_limit_1 f rows = None \<longleftrightarrow> rows = []"
proof
  assume n: "order_desc_limit_1 f rows = None"
  show "rows = []"
  proof (rule ccontr)
    assume "rows \<noteq> []"
    then have "filter (\<lambda>q. \<not> (\<exists>r \<in> set rows. published_at q < published_at r)) rows \<noteq> []"
      using ex_latest [of rows] by (simp add: filter_empty_conv)
    with n show False by (simp add: order_desc_limit_1_def split: list.splits)
  qed
next
  assume "rows = []"
  then show "order_desc_limit_1 f rows = None" by (simp add: order_desc_limit_1_def)
qed

lemma order_asc_limit_1_None: "order_asc_limit_1 f rows = None \<longleftrightarrow> rows = []"
proof
  assume n: "order_asc_limit_1 f rows = None"
  show "rows = []"
  proof (rule ccontr)
    assume "rows \<noteq> []"
    then have "filter (\<lambda>q. \<not> (\<exists>r \<in> set rows. published_at r < published_at q)) rows \<noteq> []"
      using ex_earliest [of rows] by (simp add: filter_empty_conv)
    with n show False by (simp add: order_asc_limit_1_def split: list.splits)
  qed
next
  assume "rows = []"
  then show "order_asc_limit_1 f rows = None" by (simp add: order_asc_limit_1_def)
qed

lemma order_desc_limit_1_Some:
  assumes "order_desc_limit_1 f rows = Some q"
  shows "q \<in> set rows \<and> (\<forall>r \<in> set rows. published_at r \<le> published_at q)"
proof -
  let ?top = "filter (\<lambda>q. \<not> (\<exists>r \<in> set rows. published_at q < published_at r)) rows"
  from assms obtain r rs where top: "?top = r # rs"
    and q: "q = (if f (r # rs) \<in> set (r # rs) then f (r # rs) else r)"
    by (auto simp: order_desc_limit_1_def split: list.splits)
  from q have "q \<in> set (r # rs)" by (simp split: if_splits)
  then have "q \<in> set ?top" by (simp only: top)
  then show ?thesis by (auto simp: not_less)
qed

lemma order_asc_limit_1_Some:
  assumes "order_asc_limit_1 f rows = Some q"
  shows "q \<in> set rows \<and> (\<forall>r \<in> set rows. published_at q \<le> published_at r)"
proof -
  let ?top = "filter (\<lambda>q. \<not> (\<exists>r \<in> set rows. published_at r < published_at q)) rows"
  from assms obtain r rs where top: "?top = r # rs"
    and q: "q = (if f (r # rs) \<in> set (r # rs) then f (r # rs) else r)"
    by (auto simp: order_asc_limit_1_def split: list.splits)
  from q have "q \<in> set (r # rs)" by (simp split: if_splits)
  then have "q \<in> set ?top" by (simp only: top)
  then show ?thesis by (auto simp: not_less)
qed

lemma select_prev_published_Some:
  "select_prev_published db t = Some q \<Longrightarrow>
     q \<in> set (posts db) \<and> is_published q \<and> published_at q < t
     \<and> (\<forall>r \<in> set (posts db).
           is_published r \<and> published_at r < t \<longrightarrow> published_at r \<le> published_at q)"
  unfolding select_prev_published_def by (drule order_desc_limit_1_Some) auto

lemma select_prev_published_None:
  "select_prev_published db t = None \<longleftrightarrow>
     \<not> (\<exists>r \<in> set (posts db). is_published r \<and> published_at r < t)"
  by (auto simp: select_prev_published_def order_desc_limit_1_None filter_empty_conv)

lemma select_next_published_Some:
  "select_next_published db t = Some q \<Longrightarrow>
     q \<in> set (posts db) \<and> is_published q \<and> t < published_at q
     \<and> (\<forall>r \<in> set (posts db).
           is_published r \<and> t < published_at r \<longrightarrow> published_at q \<le> published_at r)"
  unfolding select_next_published_def by (drule order_asc_limit_1_Some) auto

lemma select_next_published_None:
  "select_next_published db t = None \<longleftrightarrow>
     \<not> (\<exists>r \<in> set (posts db). is_published r \<and> t < published_at r)"
  by (auto simp: select_next_published_def order_asc_limit_1_None filter_empty_conv)

lemma select_prev_published_row_Some:
  "select_prev_published_row db t = Some q \<Longrightarrow>
     q \<in> set (posts db) \<and> is_published q \<and> published_at q < t
     \<and> (\<forall>r \<in> set (posts db).
           is_published r \<and> published_at r < t \<longrightarrow> published_at r \<le> published_at q)"
  unfolding select_prev_published_row_def by (drule order_desc_limit_1_Some) auto

lemma select_prev_published_row_None:
  "select_prev_published_row db t = None \<longleftrightarrow>
     \<not> (\<exists>r \<in> set (posts db). is_published r \<and> published_at r < t)"
  by (auto simp: select_prev_published_row_def order_desc_limit_1_None filter_empty_conv)

lemma prev_candidates_select:
  "(select_prev_published db t = None \<longleftrightarrow> prev_candidates db t = {})
   \<and> (select_prev_published db t = Some q \<longrightarrow> q \<in> prev_candidates db t)"
proof -
  have some: "q' \<in> prev_candidates db t" if "select_prev_published db t = Some q'" for q'
    using select_prev_published_Some [OF that] by (fastforce simp: prev_candidates_def)
  have "prev_candidates db t \<noteq> {}" if "select_prev_published db t \<noteq> None"
    using that some by auto
  moreover have "prev_candidates db t = {}" if "select_prev_published db t = None"
    using that unfolding select_prev_published_None by (auto simp: prev_candidates_def)
  ultimately show ?thesis using some by blast
qed

lemma next_candidates_select:
  "(select_next_published db t = None \<longleftrightarrow> next_candidates db t = {})
   \<and> (select_next_published db t = Some q \<longrightarrow> q \<in> next_candidates db t)"
proof -
  have some: "q' \<in> next_candidates db t" if "select_next_published db t = Some q'" for q'
    using select_next_published_Some [OF that] by (fastforce simp: next_candidates_def)
  have "next_candidates db t \<noteq> {}" if "select_next_published db t \<noteq> None"
    using that some by auto
  moreover have "next_candidates db t = {}" if "select_next_published db t = None"
    using that unfolding select_next_published_None by (auto simp: next_candidates_def)
  ultimately show ?thesis using some by blast
qed

lemma prev_candidates_draft:
  "prev_candidates (db\<lparr>posts := map (\<lambda>p. p\<lparr>is_draft := d p\<rparr>) (posts db)\<rparr>) t
     = (\<lambda>p. p\<lparr>is_draft := d p\<rparr>) ` prev_candidates db t"
  by (auto simp: prev_candidates_def image_iff)

lemma next_candidates_draft:
  "next_candidates (db\<lparr>posts := map (\<lambda>p. p\<lparr>is_draft := d p\<rparr>) (posts db)\<rparr>) t
     = (\<lambda>p. p\<lparr>is_draft := d p\<rparr>) ` next_candidates db t"
  by (auto simp: next_candidates_def image_iff)

lemma prev_candidates_unique:
  assumes "inj_on published_at {p \<in> set (posts db). is_published p}"
    and "q \<in> prev_candidates db t" "r \<in> prev_candidates db t"
  shows "q = r"
proof -
  from assms(2,3) have "published_at q = published_at r"
    by (fastforce simp: prev_candidates_def)
  with assms show ?thesis by (auto simp: prev_candidates_def dest: inj_onD)
qed

lemma next_candidates_unique:
  assumes "inj_on published_at {p \<in> set (posts db). is_published p}"
    and "q \<in> next_candidates db t" "r \<in> next_candidates db t"
  shows "q = r"
proof -
  from assms(2,3) have "published_at q = published_at r"
    by (fastforce simp: next_candidates_def)
  with assms show ?thesis by (auto simp: next_candidates_def dest: inj_onD)
qed

lemma select_prev_published_draft:
  assumes inj: "inj_on published_at {p \<in> set (posts db). is_published p}"
  shows "select_prev_published (db\<lparr>posts := map (\<lambda>p. p\<lparr>is_draft := d p\<rparr>) (posts db)\<rparr>) t
           = map_option (\<lambda>p. p\<lparr>is_draft := d p\<rparr>) (select_prev_published db t)"
proof -
  let ?g = "\<lambda>p. p\<lparr>is_draft := d p\<rparr>"
  let ?db' = "db\<lparr>posts := map ?g (posts db)\<rparr>"
  show ?thesis
  proof (cases "select_prev_published db t")
    case None
    then have "prev_candidates db t = {}" using prev_candidates_select by blast
    then have "prev_candidates ?db' t = {}" by (simp add: prev_candidates_draft)
    then have "select_prev_published ?db' t = None"
      using prev_candidates_select [of ?db' t] by blast
    with None show ?thesis by simp
  next
    case (Some q)
    then have q: "q \<in> prev_candidates db t" using prev_candidates_select by blast
    then have "prev_candidates ?db' t \<noteq> {}" by (auto simp: prev_candidates_draft)
    then obtain q' where s': "select_prev_published ?db' t = Some q'"
      using prev_candidates_select [of ?db' t] by (cases "select_prev_published ?db' t") auto
    then have "q' \<in> prev_candidates ?db' t" using prev_candidates_select by blast
    then obtain r where r: "r \<in> prev_candidates db t" "q' = ?g r"
      by (auto simp: prev_candidates_draft)
    from inj q r(1) have "q = r" by (rule prev_candidates_unique)
    with Some s' r show ?thesis by simp
  qed
qed

lemma select_next_published_draft:
  assumes inj: "inj_on published_at {p \<in> set (posts db). is_published p}"
  shows "select_next_published (db\<lparr>posts := map (\<lambda>p. p\<lparr>is_draft := d p\<rparr>) (posts db)\<rparr>) t
           = map_option (\<lambda>p. p\<lparr>is_draft := d p\<rparr>) (select_next_published db t)"
proof -
  let ?g = "\<lambda>p. p\<lparr>is_draft := d p\<rparr>"
  let ?db' = "db\<lparr>posts := map ?g (posts db)\<rparr>"
  show ?thesis
  proof (cases "select_next_published db t")
    case None
    then have "next_candidates db t = {}" using next_candidates_select by blast
    then have "next_candidates ?db' t = {}" by (simp add: next_candidates_draft)
    then have "select_next_published ?db' t = None"
      using next_candidates_select [of ?db' t] by blast
    with None show ?thesis by simp
  next
    case (Some q)
    then have q: "q \<in> next_candidates db t" using next_candidates_select by blast
    then have "next_candidates ?db' t \<noteq> {}" by (auto simp: next_candidates_draft)
    then obtain q' where s': "select_next_published ?db' t = Some q'"
      using next_candidates_select [of ?db' t] by (cases "select_next_published ?db' t") auto
    then have "q' \<in> next_candidates ?db' t" using next_candidates_select by blast
    then obtain r where r: "r \<in> next_candidates db t" "q' = ?g r"
      by (auto simp: next_candidates_draft)
    from inj q r(1) have "q = r" by (rule next_candidates_unique)
    with Some s' r show ?thesis by simp
  qed
qed

text \<open>
  C2, as the renderer has it. On every page rendered for a timestamp \<open>t\<close>, the previous
  neighbour is a post whose \<^verbatim>\<open>is_published\<close> is true and whose timestamp is the greatest
  one strictly below \<open>t\<close> among such posts, the next neighbour one whose timestamp is the
  smallest strictly above \<open>t\<close> among them, and there is none exactly when no such post
  exists. A post whose \<^verbatim>\<open>is_published\<close> is false is never selected. The draft flag is
  not a condition of either query: changing the draft flags of the posts changes the
  rows a query may return in their draft flags only, and, when the published posts have
  pairwise different timestamps, so that a query has one possible answer, it changes the
  answer in its draft flag only. Which of several posts with the same extreme timestamp
  is returned is left to the database.
\<close>

theorem rendered_neighbours:
  "(case select_prev_published db t of
      None \<Rightarrow> \<not> (\<exists>r \<in> set (posts db). is_published r \<and> published_at r < t)
    | Some q \<Rightarrow>
        q \<in> set (posts db) \<and> is_published q \<and> published_at q < t
        \<and> (\<forall>r \<in> set (posts db).
              is_published r \<and> published_at r < t \<longrightarrow> published_at r \<le> published_at q))
   \<and> (case select_next_published db t of
        None \<Rightarrow> \<not> (\<exists>r \<in> set (posts db). is_published r \<and> t < published_at r)
      | Some q \<Rightarrow>
          q \<in> set (posts db) \<and> is_published q \<and> t < published_at q
          \<and> (\<forall>r \<in> set (posts db).
                is_published r \<and> t < published_at r \<longrightarrow> published_at q \<le> published_at r))
   \<and> (select_prev_published db t = None \<longleftrightarrow> prev_candidates db t = {})
   \<and> set_option (select_prev_published db t) \<subseteq> prev_candidates db t
   \<and> (select_next_published db t = None \<longleftrightarrow> next_candidates db t = {})
   \<and> set_option (select_next_published db t) \<subseteq> next_candidates db t
   \<and> prev_candidates (db\<lparr>posts := map (\<lambda>p. p\<lparr>is_draft := d p\<rparr>) (posts db)\<rparr>) t
       = (\<lambda>p. p\<lparr>is_draft := d p\<rparr>) ` prev_candidates db t
   \<and> next_candidates (db\<lparr>posts := map (\<lambda>p. p\<lparr>is_draft := d p\<rparr>) (posts db)\<rparr>) t
       = (\<lambda>p. p\<lparr>is_draft := d p\<rparr>) ` next_candidates db t
   \<and> (inj_on published_at {p \<in> set (posts db). is_published p} \<longrightarrow>
        select_prev_published (db\<lparr>posts := map (\<lambda>p. p\<lparr>is_draft := d p\<rparr>) (posts db)\<rparr>) t
          = map_option (\<lambda>p. p\<lparr>is_draft := d p\<rparr>) (select_prev_published db t)
        \<and> select_next_published (db\<lparr>posts := map (\<lambda>p. p\<lparr>is_draft := d p\<rparr>) (posts db)\<rparr>) t
            = map_option (\<lambda>p. p\<lparr>is_draft := d p\<rparr>) (select_next_published db t))"
proof -
  have 1: "(case select_prev_published db t of
      None \<Rightarrow> \<not> (\<exists>r \<in> set (posts db). is_published r \<and> published_at r < t)
    | Some q \<Rightarrow>
        q \<in> set (posts db) \<and> is_published q \<and> published_at q < t
        \<and> (\<forall>r \<in> set (posts db).
              is_published r \<and> published_at r < t \<longrightarrow> published_at r \<le> published_at q))"
    using select_prev_published_Some [of db t] select_prev_published_None [of db t]
    by (cases "select_prev_published db t") simp_all
  have 2: "(case select_next_published db t of
        None \<Rightarrow> \<not> (\<exists>r \<in> set (posts db). is_published r \<and> t < published_at r)
      | Some q \<Rightarrow>
          q \<in> set (posts db) \<and> is_published q \<and> t < published_at q
          \<and> (\<forall>r \<in> set (posts db).
                is_published r \<and> t < published_at r \<longrightarrow> published_at q \<le> published_at r))"
    using select_next_published_Some [of db t] select_next_published_None [of db t]
    by (cases "select_next_published db t") simp_all
  have 3: "(select_prev_published db t = None \<longleftrightarrow> prev_candidates db t = {})"
    and 4: "set_option (select_prev_published db t) \<subseteq> prev_candidates db t"
    using prev_candidates_select [of db t]
    by (blast, cases "select_prev_published db t") auto
  have 5: "(select_next_published db t = None \<longleftrightarrow> next_candidates db t = {})"
    and 6: "set_option (select_next_published db t) \<subseteq> next_candidates db t"
    using next_candidates_select [of db t]
    by (blast, cases "select_next_published db t") auto
  note 7 = prev_candidates_draft [where db = db and d = d and t = t]
    and 8 = next_candidates_draft [where db = db and d = d and t = t]
  have 9: "inj_on published_at {p \<in> set (posts db). is_published p} \<longrightarrow>
        select_prev_published (db\<lparr>posts := map (\<lambda>p. p\<lparr>is_draft := d p\<rparr>) (posts db)\<rparr>) t
          = map_option (\<lambda>p. p\<lparr>is_draft := d p\<rparr>) (select_prev_published db t)
        \<and> select_next_published (db\<lparr>posts := map (\<lambda>p. p\<lparr>is_draft := d p\<rparr>) (posts db)\<rparr>) t
            = map_option (\<lambda>p. p\<lparr>is_draft := d p\<rparr>) (select_next_published db t)"
    using select_prev_published_draft select_next_published_draft by blast
  show ?thesis
    by (intro conjI) (rule 1 2 3 4 5 6 7 8 9)+
qed

theorem rendered_neighbours_witness:
  "select_prev_published
     (example_store [example_post ''a'' 1 True 0, example_post ''u'' 2 False 0,
                     example_post ''p'' 3 True 0, example_post ''b'' 4 True 0,
                     example_post ''c'' 5 True 0]) 3
     = Some (example_post ''a'' 1 True 0)
   \<and> select_next_published
       (example_store [example_post ''a'' 1 True 0, example_post ''u'' 2 False 0,
                       example_post ''p'' 3 True 0, example_post ''b'' 4 True 0,
                       example_post ''c'' 5 True 0]) 3
     = Some (example_post ''b'' 4 True 0)
   \<and> select_prev_published
       (example_store [example_post ''a'' 1 True 0, example_post ''u'' 2 False 0,
                       example_post ''p'' 3 True 0, example_post ''b'' 4 True 0,
                       example_post ''c'' 5 True 0]) 1
     = None
   \<and> example_post ''a'' 1 True 0
       \<in> prev_candidates
           (example_store [example_post ''a'' 1 True 0, example_post ''u'' 2 False 0,
                           example_post ''p'' 3 True 0, example_post ''b'' 4 True 0,
                           example_post ''c'' 5 True 0]) 3
   \<and> inj_on published_at
         {p \<in> set (posts (example_store [example_post ''a'' 1 True 0,
                                         example_post ''u'' 2 False 0,
                                         example_post ''p'' 3 True 0,
                                         example_post ''b'' 4 True 0,
                                         example_post ''c'' 5 True 0])). is_published p}
   \<and> select_prev_published
       ((example_store [example_post ''a'' 1 True 0, example_post ''u'' 2 False 0,
                        example_post ''p'' 3 True 0, example_post ''b'' 4 True 0,
                        example_post ''c'' 5 True 0])
          \<lparr>posts := map (\<lambda>p. p\<lparr>is_draft := 1\<rparr>)
                     [example_post ''a'' 1 True 0, example_post ''u'' 2 False 0,
                      example_post ''p'' 3 True 0, example_post ''b'' 4 True 0,
                      example_post ''c'' 5 True 0]\<rparr>) 3
     = Some (example_post ''a'' 1 True 1)"
proof -
  let ?db = "example_store [example_post ''a'' 1 True 0, example_post ''u'' 2 False 0,
                            example_post ''p'' 3 True 0, example_post ''b'' 4 True 0,
                            example_post ''c'' 5 True 0]"
  have a: "select_prev_published ?db 3 = Some (example_post ''a'' 1 True 0)"
    and b: "select_next_published ?db 3 = Some (example_post ''b'' 4 True 0)"
    and c: "select_prev_published ?db 1 = None"
    by (simp_all add: eval_defs)
  have i: "inj_on published_at {p \<in> set (posts ?db). is_published p}"
    by (auto simp: inj_on_def example_store_def example_post_def)
  have p: "posts ?db = [example_post ''a'' 1 True 0, example_post ''u'' 2 False 0,
                        example_post ''p'' 3 True 0, example_post ''b'' 4 True 0,
                        example_post ''c'' 5 True 0]"
    by (simp add: example_store_def)
  have e: "(example_post ''a'' 1 True 0)\<lparr>is_draft := 1\<rparr> = example_post ''a'' 1 True 1"
    by (simp add: example_post_def)
  note n = rendered_neighbours [of ?db 3 "\<lambda>p. 1"]
  from n have s: "set_option (select_prev_published ?db 3) \<subseteq> prev_candidates ?db 3"
    by blast
  from n i have "select_prev_published
                   (?db\<lparr>posts := map (\<lambda>p. p\<lparr>is_draft := 1\<rparr>) (posts ?db)\<rparr>) 3
                 = map_option (\<lambda>p. p\<lparr>is_draft := 1\<rparr>) (select_prev_published ?db 3)"
    by blast
  then have d: "select_prev_published
                   (?db\<lparr>posts := map (\<lambda>p. p\<lparr>is_draft := 1\<rparr>)
                     [example_post ''a'' 1 True 0, example_post ''u'' 2 False 0,
                      example_post ''p'' 3 True 0, example_post ''b'' 4 True 0,
                      example_post ''c'' 5 True 0]\<rparr>) 3
                 = Some (example_post ''a'' 1 True 1)"
    unfolding a p by (simp only: option.map e)
  from s have m: "example_post ''a'' 1 True 0 \<in> prev_candidates ?db 3"
    unfolding a by simp
  from a b c m i d show ?thesis by (intro conjI)
qed

text \<open>
  C2 as it is stated fails: a post that is a draft and has \<^verbatim>\<open>is_published\<close> true, as
  \<^verbatim>\<open>POST /api/posts\<close> stores it for a body with \<^verbatim>\<open>is_draft: 1\<close> and \<^verbatim>\<open>is_published: true\<close>,
  is the previous neighbour on the page of the post after it. No other post has its
  timestamp, so the database has no choice.
\<close>

theorem rendered_neighbours_counterexample:
  "select_prev_published
     (example_store [example_post ''d'' 1 True 1, example_post ''p'' 2 True 0]) 2
     = Some (example_post ''d'' 1 True 1)
   \<and> prev_candidates
       (example_store [example_post ''d'' 1 True 1, example_post ''p'' 2 True 0]) 2
     = {example_post ''d'' 1 True 1}
   \<and> is_draft (example_post ''d'' 1 True 1) \<noteq> 0"
proof -
  have "prev_candidates
       (example_store [example_post ''d'' 1 True 1, example_post ''p'' 2 True 0]) 2
     = {example_post ''d'' 1 True 1}"
    by (auto simp: prev_candidates_def example_store_def example_post_def)
  then show ?thesis by (simp add: eval_defs)
qed

section \<open>Slugs stay unique\<close>

lemma generateUniqueSlug_nonempty: "generateUniqueSlug rt db ttl ex \<noteq> []"
  by (simp add: generateUniqueSlug_def Let_def slug_loop_nonempty base_slug_nonempty)

lemma generateUniqueSlug_free: "\<not> slug_in_use db ex (generateUniqueSlug rt db ttl ex)"
  by (simp add: generateUniqueSlug_def Let_def slug_loop_free)

lemma generateUniqueSlug_base:
  "\<not> slug_in_use db ex (base_slug rt ttl) \<Longrightarrow> generateUniqueSlug rt db ttl ex = base_slug rt ttl"
  by (simp add: generateUniqueSlug_def Let_def
      slug_loop.simps [of db ex "base_slug rt ttl" "base_slug rt ttl"])

lemma post_id_apply_updates [simp]: "post_id (apply_updates rt body ns p) = post_id p"
  by (simp add: apply_updates_def)

lemma slug_apply_updates [simp]:
  "slug (apply_updates rt body ns p) = (case ns of None \<Rightarrow> slug p | Some s \<Rightarrow> s)"
  by (simp add: apply_updates_def)

lemma map_post_id_update:
  "map post_id (map (\<lambda>q. if post_id q = i then apply_updates rt body ns q else q) ps)
     = map post_id ps"
  by (induction ps) auto

lemma distinct_slug_update:
  assumes "distinct (map post_id ps)" "distinct (map slug ps)"
    and "\<forall>q \<in> set ps. post_id q \<noteq> i \<longrightarrow> slug q \<noteq> s"
  shows "distinct (map slug
           (map (\<lambda>q. if post_id q = i then apply_updates rt body (Some s) q else q) ps))"
  using assms
proof (induction ps)
  case Nil
  show ?case by simp
next
  case (Cons a ps)
  let ?f = "\<lambda>q. if post_id q = i then apply_updates rt body (Some s) q else q"
  have ih: "distinct (map slug (map ?f ps))" using Cons by simp
  show ?case
  proof (cases "post_id a = i")
    case True
    from Cons.prems(1) have "post_id a \<notin> post_id ` set ps" by simp
    with True have other: "\<forall>q \<in> set ps. post_id q \<noteq> i" by blast
    then have "map ?f ps = ps" by (simp add: map_idI)
    moreover from other Cons.prems(3) have "s \<notin> slug ` set ps" by auto
    ultimately show ?thesis using True Cons.prems(2) by simp
  next
    case False
    with Cons.prems(3) have ne: "slug a \<noteq> s" by simp
    have nm: "slug a \<notin> set (map slug (map ?f ps))"
    proof
      assume "slug a \<in> set (map slug (map ?f ps))"
      then obtain q where q: "q \<in> set ps" "slug a = slug (?f q)" by auto
      show False
      proof (cases "post_id q = i")
        case True
        with q ne show False by simp
      next
        case False
        with q Cons.prems(2) show False by auto
      qed
    qed
    have "map slug (map ?f (a # ps)) = slug a # map slug (map ?f ps)" using False by simp
    then show ?thesis using ih nm by (simp only: distinct.simps simp_thms)
  qed
qed

lemma select_post_Some: "select_post db i = Some p \<Longrightarrow> p \<in> set (posts db) \<and> post_id p = i"
  by (auto simp: select_post_def find_Some_iff)

lemma select_post_distinct:
  "distinct (map post_id ps) \<Longrightarrow> p \<in> set ps \<Longrightarrow> find (\<lambda>q. post_id q = post_id p) ps = Some p"
  by (induction ps) auto

lemma find_map_update:
  "find (\<lambda>q. post_id q = i) ps = Some p \<Longrightarrow>
     find (\<lambda>q. post_id q = i)
       (map (\<lambda>q. if post_id q = i then apply_updates rt body ns q else q) ps)
     = Some (apply_updates rt body ns p)"
  by (induction ps) (auto split: if_splits)

lemma create_post_invariant:
  assumes "store_invariant db" "newId \<noteq> []" "create_post rt newId now db body = Inr (db', regen)"
  shows "store_invariant db'"
proof -
  let ?ttl = "or_default (in_title body) []"
  let ?s0 = "generateUniqueSlug rt (posts db) ?ttl (Some newId)"
  let ?s1 = "if ?s0 = [] then newId else ?s0"
  from assms(3) have ok: "\<not> (\<exists>p \<in> set (posts db). post_id p = newId \<or> slug p = ?s1)"
    by (auto simp: create_post_def Let_def split: if_splits)
  from assms(3) obtain row where row: "posts db' = posts db @ [row]" "post_id row = newId"
      "slug row = ?s1"
    by (auto simp: create_post_def Let_def split: if_splits)
  have "?s1 \<noteq> []" using assms(2) by simp
  with assms(1,2) ok row show ?thesis
    by (auto simp: store_invariant_def)
qed

lemma put_post_invariant:
  assumes "store_invariant db" "put_post rt i db body = Inr (db', regen)"
  shows "store_invariant db'"
proof -
  from assms(2) obtain originalPost where op: "select_post db i = Some originalPost"
    by (auto simp: put_post_def split: option.splits)
  define ns where "ns =
     (case in_title body of
        None \<Rightarrow> None
      | Some t \<Rightarrow>
          if t \<noteq> [] \<and> t \<noteq> title originalPost
          then Some (generateUniqueSlug rt (posts db) t (Some i))
          else None)"
  from assms(2) op have ok: "\<not> (\<exists>q \<in> set (posts db). post_id q \<noteq> i \<and> Some (slug q) = ns)"
    by (auto simp: put_post_def Let_def ns_def split: if_splits)
  from assms(2) op ok have ps: "posts db' =
      map (\<lambda>q. if post_id q = i then apply_updates rt body ns q else q) (posts db)"
    by (auto simp: put_post_def Let_def ns_def split: if_splits)
  have ids: "map post_id (posts db') = map post_id (posts db)"
    by (simp add: ps map_post_id_update)
  have ne: "\<forall>p \<in> set (posts db'). post_id p \<noteq> [] \<and> slug p \<noteq> []"
  proof
    fix p' assume "p' \<in> set (posts db')"
    then obtain q where q: "q \<in> set (posts db)"
        "p' = (if post_id q = i then apply_updates rt body ns q else q)"
      unfolding ps by auto
    have "ns = Some s \<Longrightarrow> s \<noteq> []" for s
      by (auto simp: ns_def generateUniqueSlug_nonempty split: option.splits if_splits)
    with q assms(1) show "post_id p' \<noteq> [] \<and> slug p' \<noteq> []"
      by (cases ns) (auto simp: store_invariant_def)
  qed
  have slugs: "distinct (map slug (posts db'))"
  proof (cases ns)
    case None
    have "map slug (posts db') = map slug (posts db)"
      unfolding ps None by (induction "posts db") auto
    then show ?thesis using assms(1) by (simp add: store_invariant_def)
  next
    case (Some s)
    show ?thesis
      unfolding ps Some
      using assms(1) ok Some by (intro distinct_slug_update) (auto simp: store_invariant_def)
  qed
  from ids slugs ne assms(1) show ?thesis by (simp add: store_invariant_def)
qed

lemma delete_post_invariant:
  assumes "store_invariant db" "delete_post i db = Inr (db', key, regen)"
  shows "store_invariant db'"
proof -
  from assms(2) have "posts db' = filter (\<lambda>p. post_id p \<noteq> i) (posts db)"
    by (auto simp: delete_post_def Let_def split: option.splits)
  with assms(1) show ?thesis
    by (auto simp: store_invariant_def distinct_map_filter)
qed

lemma submit_comment_posts:
  "submit_comment userIp postId now createdAt commentId db body = Inr (db', regen) \<Longrightarrow>
     posts db' = posts db"
  by (auto simp: submit_comment_def Let_def split: if_splits)

lemma reachable_invariant: "reachable rt db \<Longrightarrow> store_invariant db"
proof (induction rule: reachable.induct)
  case (initial db)
  then show ?case by (simp add: store_invariant_def)
next
  case (created db newId now body db' regen)
  then show ?case using create_post_invariant by blast
next
  case (updated db i body db' regen)
  then show ?case using put_post_invariant by blast
next
  case (deleted db i db' key regen)
  then show ?case using delete_post_invariant by blast
next
  case (commented db userIp postId now createdAt commentId cbody db' regen)
  then show ?case using submit_comment_posts [of userIp postId now createdAt commentId db cbody db' regen]
    by (simp add: store_invariant_def)
qed

lemma retitle_to_free_slug:
  assumes inv: "store_invariant db" and p: "p \<in> set (posts db)"
    and t: "in_title body = Some t" "t \<noteq> []" "t \<noteq> title p"
    and free: "\<not> (\<exists>q \<in> set (posts db). q \<noteq> p \<and> slug q = base_slug rt t)"
  shows "\<exists>db' regen. put_post rt (post_id p) db body = Inr (db', regen)
           \<and> select_post db' (post_id p)
               = Some (apply_updates rt body (Some (base_slug rt t)) p)"
proof -
  have sel: "select_post db (post_id p) = Some p"
    using inv p by (simp add: select_post_def store_invariant_def select_post_distinct)
  have pid: "post_id p \<noteq> []" using inv p by (auto simp: store_invariant_def)
  have nu: "\<not> slug_in_use (posts db) (Some (post_id p)) (base_slug rt t)"
    using free pid by (auto simp: slug_in_use_def)
  then have g: "generateUniqueSlug rt (posts db) t (Some (post_id p)) = base_slug rt t"
    by (rule generateUniqueSlug_base)
  have ok: "\<not> (\<exists>q \<in> set (posts db). post_id q \<noteq> post_id p \<and> slug q = base_slug rt t)"
    using free by auto
  let ?f = "\<lambda>q. if post_id q = post_id p then apply_updates rt body (Some (base_slug rt t)) q else q"
  have "select_post (db\<lparr>posts := map ?f (posts db)\<rparr>) (post_id p)
               = Some (apply_updates rt body (Some (base_slug rt t)) p)"
    using sel by (simp add: select_post_def find_map_update)
  with sel g ok t show ?thesis
    by (simp add: put_post_def Let_def)
qed

text \<open>
  C5. In every store that post creations, updates and deletions (and comment
  submissions) lead to, no two posts share a slug. There, giving a post a new title
  whose base slug no other post has at that moment, whoever had it before, succeeds and
  makes that base slug the post's slug.
\<close>

theorem slugs_unique:
  "reachable rt db \<Longrightarrow>
     distinct (map slug (posts db))
     \<and> (p \<in> set (posts db) \<and> in_title body = Some t \<and> t \<noteq> [] \<and> t \<noteq> title p
          \<and> \<not> (\<exists>q \<in> set (posts db). q \<noteq> p \<and> slug q = base_slug rt t)
        \<longrightarrow> (\<exists>db' regen.
               put_post rt (post_id p) db body = Inr (db', regen) \<and> reachable rt db'
               \<and> distinct (map slug (posts db'))
               \<and> map_option slug (select_post db' (post_id p)) = Some (base_slug rt t)))"
proof -
  assume r: "reachable rt db"
  then have inv: "store_invariant db" by (rule reachable_invariant)
  have "\<exists>db' regen.
               put_post rt (post_id p) db body = Inr (db', regen) \<and> reachable rt db'
               \<and> distinct (map slug (posts db'))
               \<and> map_option slug (select_post db' (post_id p)) = Some (base_slug rt t)"
    if h: "p \<in> set (posts db)" "in_title body = Some t" "t \<noteq> []" "t \<noteq> title p"
      "\<not> (\<exists>q \<in> set (posts db). q \<noteq> p \<and> slug q = base_slug rt t)"
  proof -
    from retitle_to_free_slug [OF inv h] obtain db' regen where
      put: "put_post rt (post_id p) db body = Inr (db', regen)"
      and sel: "select_post db' (post_id p) = Some (apply_updates rt body (Some (base_slug rt t)) p)"
      by blast
    have "post_id p \<noteq> []" using inv h(1) by (auto simp: store_invariant_def)
    then have r': "reachable rt db'" using r put by (blast intro: reachable.updated)
    then have "store_invariant db'" by (rule reachable_invariant)
    with put r' sel show ?thesis by (simp add: store_invariant_def)
  qed
  with inv show ?thesis by (simp add: store_invariant_def)
qed

theorem slugs_unique_witness:
  "reachable example_runtime
     (example_store [example_row ''id1'' ''Bye'' ''bye'' 1, example_row ''id2'' ''World'' ''world'' 2])
   \<and> distinct (map slug [example_row ''id1'' ''Bye'' ''bye'' 1,
                          example_row ''id2'' ''World'' ''world'' 2])
   \<and> (\<exists>regen.
        put_post example_runtime (js ''id2'')
          (example_store [example_row ''id1'' ''Bye'' ''bye'' 1,
                          example_row ''id2'' ''World'' ''world'' 2])
          (no_input\<lparr>in_title := Some (js ''Hello'')\<rparr>)
        = Inr (example_store [example_row ''id1'' ''Bye'' ''bye'' 1,
                              example_row ''id2'' ''Hello'' ''hello'' 2], regen))"
proof -
  let ?R = example_runtime
  let ?d1 = "example_store [example_row ''id1'' ''Hello'' ''hello'' 1]"
  let ?d2 = "example_store [example_row ''id1'' ''Hello'' ''hello'' 1,
                            example_row ''id2'' ''World'' ''world'' 2]"
  let ?d3 = "example_store [example_row ''id1'' ''Bye'' ''bye'' 1,
                            example_row ''id2'' ''World'' ''world'' 2]"
  let ?d4 = "example_store [example_row ''id1'' ''Bye'' ''bye'' 1,
                            example_row ''id2'' ''Hello'' ''hello'' 2]"
  have r0: "reachable ?R (example_store [])"
    by (rule reachable.initial) (simp add: example_store_def)
  have "\<exists>regen. create_post ?R (js ''id1'') 1 (example_store [])
                  (no_input\<lparr>in_title := Some (js ''Hello'')\<rparr>) = Inr (?d1, regen)"
    by (simp add: eval_defs)
  then obtain g1 where c1: "create_post ?R (js ''id1'') 1 (example_store [])
                  (no_input\<lparr>in_title := Some (js ''Hello'')\<rparr>) = Inr (?d1, g1)" ..
  have r1: "reachable ?R ?d1"
    by (rule reachable.created [OF r0 _ c1]) (simp add: js_def)
  have "\<exists>regen. create_post ?R (js ''id2'') 2 ?d1
                  (no_input\<lparr>in_title := Some (js ''World'')\<rparr>) = Inr (?d2, regen)"
    by (simp add: eval_defs)
  then obtain g2 where c2: "create_post ?R (js ''id2'') 2 ?d1
                  (no_input\<lparr>in_title := Some (js ''World'')\<rparr>) = Inr (?d2, g2)" ..
  have r2: "reachable ?R ?d2"
    by (rule reachable.created [OF r1 _ c2]) (simp add: js_def)
  have "\<exists>regen. put_post ?R (js ''id1'') ?d2
                  (no_input\<lparr>in_title := Some (js ''Bye'')\<rparr>) = Inr (?d3, regen)"
    by (simp add: eval_defs)
  then obtain g3 where c3: "put_post ?R (js ''id1'') ?d2
                  (no_input\<lparr>in_title := Some (js ''Bye'')\<rparr>) = Inr (?d3, g3)" ..
  have r3: "reachable ?R ?d3"
    by (rule reachable.updated [OF r2 _ c3]) (simp add: js_def)
  have e4: "\<exists>regen. put_post ?R (js ''id2'') ?d3
                  (no_input\<lparr>in_title := Some (js ''Hello'')\<rparr>) = Inr (?d4, regen)"
    by (simp add: eval_defs)
  from slugs_unique [OF r3, of "example_row ''id2'' ''World'' ''world'' 2"
      "no_input\<lparr>in_title := Some (js ''Hello'')\<rparr>" "js ''Hello''"]
  have "distinct (map slug (posts ?d3))" by simp
  with r3 e4 show ?thesis by (simp add: example_store_def)
qed

section \<open>The regeneration cascade\<close>

lemma run_cascade_other:
  "k \<notin> slug ` set regen \<Longrightarrow> run_cascade rt clock db regen pages k = pages k"
  by (induction regen arbitrary: clock pages) (auto simp: generateAndStoreStaticPage_def)

lemma run_cascade_written:
  "k \<in> slug ` set regen \<Longrightarrow> run_cascade rt clock db regen pages k \<noteq> None"
proof (induction regen arbitrary: clock pages)
  case Nil
  then show ?case by simp
next
  case (Cons p ps)
  show ?case
  proof (cases "k \<in> slug ` set ps")
    case True
    then show ?thesis using Cons.IH by simp
  next
    case False
    with Cons.prems have "k = slug p" by auto
    with False show ?thesis
      by (simp add: run_cascade_other generateAndStoreStaticPage_def)
  qed
qed




lemma run_cascade_value:
  "distinct (map slug regen) \<Longrightarrow> i < length regen \<Longrightarrow>
     run_cascade rt clock db regen pages (slug (regen ! i))
       = Some (page_html rt (getFullYear rt (clock i)) db (regen ! i))"
proof (induction regen arbitrary: clock pages i)
  case Nil
  then show ?case by simp
next
  case (Cons p ps)
  show ?case
  proof (cases i)
    case 0
    from Cons.prems(1) have "slug p \<notin> slug ` set ps" by simp
    then have "run_cascade rt (\<lambda>i. clock (Suc i)) db ps
                 (generateAndStoreStaticPage rt (clock 0) db p pages) (slug p)
               = generateAndStoreStaticPage rt (clock 0) db p pages (slug p)"
      by (rule run_cascade_other)
    with 0 show ?thesis by (simp add: generateAndStoreStaticPage_def)
  next
    case (Suc j)
    with Cons.prems have "distinct (map slug ps)" "j < length ps" by simp_all
    then have "run_cascade rt (\<lambda>i. clock (Suc i)) db ps
                 (generateAndStoreStaticPage rt (clock 0) db p pages) (slug (ps ! j))
               = Some (page_html rt (getFullYear rt (clock (Suc j))) db (ps ! j))"
      by (rule Cons.IH)
    with Suc show ?thesis by simp
  qed
qed

lemma concat_guard_filter:
  "concat (map (\<lambda>p. if slug p \<noteq> [] then [p] else []) ps) = filter (\<lambda>p. slug p \<noteq> []) ps"
  by (induction ps) auto

lemma mset_select_published:
  "mset (select_published db) = mset (filter (\<lambda>p. is_published p) (posts db))"
  by (simp add: select_published_def Let_def)

lemma rebuild_all_filter:
  "rebuild_all db = filter (\<lambda>p. slug p \<noteq> []) (select_published db)"
  by (simp add: rebuild_all_def Let_def concat_guard_filter)

lemma mset_rebuild_all:
  "mset (rebuild_all db) = mset (filter (\<lambda>p. is_published p \<and> slug p \<noteq> []) (posts db))"
proof -
  have "mset (rebuild_all db)
          = filter_mset (\<lambda>p. slug p \<noteq> []) (mset (filter (\<lambda>p. is_published p) (posts db)))"
    by (simp add: rebuild_all_filter mset_select_published)
  also have "\<dots> = mset (filter (\<lambda>p. is_published p \<and> slug p \<noteq> []) (posts db))"
    by (rule multiset_eqI) auto
  finally show ?thesis .
qed

lemma rebuild_all_set:
  "set (rebuild_all db) = {p \<in> set (posts db). is_published p \<and> slug p \<noteq> []}"
proof -
  have "set (rebuild_all db) = set_mset (mset (rebuild_all db))" by simp
  also have "\<dots> = {p \<in> set (posts db). is_published p \<and> slug p \<noteq> []}"
    unfolding mset_rebuild_all by auto
  finally show ?thesis .
qed

lemma rebuild_all_distinct:
  assumes "distinct (map slug (posts db))"
  shows "distinct (map slug (rebuild_all db))"
proof -
  have "mset (map slug (rebuild_all db))
          = mset (map slug (filter (\<lambda>p. is_published p \<and> slug p \<noteq> []) (posts db)))"
    using mset_rebuild_all [of db] by (metis mset_map)
  moreover have "distinct (map slug (filter (\<lambda>p. is_published p \<and> slug p \<noteq> []) (posts db)))"
    using assms by (rule distinct_map_filter)
  ultimately show ?thesis by (metis mset_eq_imp_distinct_iff)
qed

text \<open>
  C7, as the handler has it. \<^verbatim>\<open>POST /api/rebuild-all\<close> hands to the page generator every
  post whose \<^verbatim>\<open>is_published\<close> is true and whose slug is not empty, whatever its draft
  flag, each once, in the order the database returns them, and no post whose
  \<^verbatim>\<open>is_published\<close> is false. On every store the handlers lead to, no slug is empty, so
  these are all the posts whose \<^verbatim>\<open>is_published\<close> is true; under the slug of each the
  bucket then holds the page rendered for that post from the store, at the clock of its
  turn, and the bucket is unchanged at every key that is not the slug of such a post.
\<close>

theorem rebuild_all_published:
  "mset (rebuild_all db) = mset (filter (\<lambda>p. is_published p \<and> slug p \<noteq> []) (posts db))
   \<and> (reachable rt db \<longrightarrow>
        mset (rebuild_all db) = mset (filter (\<lambda>p. is_published p) (posts db))
        \<and> (\<forall>i < length (rebuild_all db).
              rebuild_all_pages rt clock db pages (slug (rebuild_all db ! i))
                = Some (page_html rt (getFullYear rt (clock i)) db (rebuild_all db ! i)))
        \<and> (\<forall>p \<in> set (posts db). is_published p \<longrightarrow>
              (\<exists>i < length (rebuild_all db). rebuild_all db ! i = p
                 \<and> rebuild_all_pages rt clock db pages (slug p)
                     = Some (page_html rt (getFullYear rt (clock i)) db p)))
        \<and> (\<forall>k. \<not> (\<exists>p \<in> set (posts db). is_published p \<and> slug p = k) \<longrightarrow>
              rebuild_all_pages rt clock db pages k = pages k))"
proof -
  have a: "mset (rebuild_all db)
             = mset (filter (\<lambda>p. is_published p \<and> slug p \<noteq> []) (posts db))"
    by (rule mset_rebuild_all)
  have b: "mset (rebuild_all db) = mset (filter (\<lambda>p. is_published p) (posts db))
        \<and> (\<forall>i < length (rebuild_all db).
              rebuild_all_pages rt clock db pages (slug (rebuild_all db ! i))
                = Some (page_html rt (getFullYear rt (clock i)) db (rebuild_all db ! i)))
        \<and> (\<forall>p \<in> set (posts db). is_published p \<longrightarrow>
              (\<exists>i < length (rebuild_all db). rebuild_all db ! i = p
                 \<and> rebuild_all_pages rt clock db pages (slug p)
                     = Some (page_html rt (getFullYear rt (clock i)) db p)))
        \<and> (\<forall>k. \<not> (\<exists>p \<in> set (posts db). is_published p \<and> slug p = k) \<longrightarrow>
              rebuild_all_pages rt clock db pages k = pages k)"
    if r: "reachable rt db"
  proof -
    from r have inv: "store_invariant db" by (rule reachable_invariant)
    then have ne: "\<forall>p \<in> set (posts db). slug p \<noteq> []" and ds: "distinct (map slug (posts db))"
      by (auto simp: store_invariant_def)
    from ne have "filter (\<lambda>p. is_published p \<and> slug p \<noteq> []) (posts db)
                    = filter (\<lambda>p. is_published p) (posts db)"
      by (intro filter_cong) auto
    with a have 1: "mset (rebuild_all db) = mset (filter (\<lambda>p. is_published p) (posts db))"
      by simp
    then have s: "set (rebuild_all db) = {p \<in> set (posts db). is_published p}"
      by (metis set_filter set_mset_mset)
    have d: "distinct (map slug (rebuild_all db))" using ds by (rule rebuild_all_distinct)
    have 2: "\<forall>i < length (rebuild_all db).
              rebuild_all_pages rt clock db pages (slug (rebuild_all db ! i))
                = Some (page_html rt (getFullYear rt (clock i)) db (rebuild_all db ! i))"
      unfolding rebuild_all_pages_def using d by (intro allI impI run_cascade_value)
    have 3: "\<forall>p \<in> set (posts db). is_published p \<longrightarrow>
              (\<exists>i < length (rebuild_all db). rebuild_all db ! i = p
                 \<and> rebuild_all_pages rt clock db pages (slug p)
                     = Some (page_html rt (getFullYear rt (clock i)) db p))"
    proof (intro ballI impI)
      fix p assume "p \<in> set (posts db)" "is_published p"
      then have "p \<in> set (rebuild_all db)" by (simp add: s)
      then obtain i where i: "i < length (rebuild_all db)" "rebuild_all db ! i = p"
        by (auto simp: in_set_conv_nth)
      with 2 have "rebuild_all_pages rt clock db pages (slug p)
                     = Some (page_html rt (getFullYear rt (clock i)) db p)"
        by force
      with i show "\<exists>i < length (rebuild_all db). rebuild_all db ! i = p
                 \<and> rebuild_all_pages rt clock db pages (slug p)
                     = Some (page_html rt (getFullYear rt (clock i)) db p)"
        by blast
    qed
    have 4: "\<forall>k. \<not> (\<exists>p \<in> set (posts db). is_published p \<and> slug p = k) \<longrightarrow>
              rebuild_all_pages rt clock db pages k = pages k"
    proof (intro allI impI)
      fix k assume "\<not> (\<exists>p \<in> set (posts db). is_published p \<and> slug p = k)"
      then have "k \<notin> slug ` set (rebuild_all db)" by (auto simp: s)
      then show "rebuild_all_pages rt clock db pages k = pages k"
        unfolding rebuild_all_pages_def by (rule run_cascade_other)
    qed
    from 1 2 3 4 show ?thesis by (intro conjI)
  qed
  show ?thesis by (rule conjI [OF a impI [OF b]])
qed

theorem rebuild_all_published_witness:
  "reachable example_runtime
     (example_store [(example_row ''id1'' ''Draft'' ''draft'' 1)\<lparr>is_draft := 1\<rparr>,
                     (example_row ''id2'' ''Off'' ''off'' 2)\<lparr>is_published := False\<rparr>])
   \<and> rebuild_all
       (example_store [(example_row ''id1'' ''Draft'' ''draft'' 1)\<lparr>is_draft := 1\<rparr>,
                       (example_row ''id2'' ''Off'' ''off'' 2)\<lparr>is_published := False\<rparr>])
     = [(example_row ''id1'' ''Draft'' ''draft'' 1)\<lparr>is_draft := 1\<rparr>]
   \<and> rebuild_all_pages example_runtime (\<lambda>i. 0)
       (example_store [(example_row ''id1'' ''Draft'' ''draft'' 1)\<lparr>is_draft := 1\<rparr>,
                       (example_row ''id2'' ''Off'' ''off'' 2)\<lparr>is_published := False\<rparr>])
       [js ''draft'' \<mapsto> js ''stale'', js ''off'' \<mapsto> js ''stale''] (js ''draft'')
     = Some (page_html example_runtime 1970
              (example_store [(example_row ''id1'' ''Draft'' ''draft'' 1)\<lparr>is_draft := 1\<rparr>,
                              (example_row ''id2'' ''Off'' ''off'' 2)\<lparr>is_published := False\<rparr>])
              ((example_row ''id1'' ''Draft'' ''draft'' 1)\<lparr>is_draft := 1\<rparr>))
   \<and> rebuild_all_pages example_runtime (\<lambda>i. 0)
       (example_store [(example_row ''id1'' ''Draft'' ''draft'' 1)\<lparr>is_draft := 1\<rparr>,
                       (example_row ''id2'' ''Off'' ''off'' 2)\<lparr>is_published := False\<rparr>])
       [js ''draft'' \<mapsto> js ''stale'', js ''off'' \<mapsto> js ''stale''] (js ''off'')
     = Some (js ''stale'')"
proof -
  let ?R = example_runtime
  let ?D = "(example_row ''id1'' ''Draft'' ''draft'' 1)\<lparr>is_draft := 1\<rparr>"
  let ?U = "(example_row ''id2'' ''Off'' ''off'' 2)\<lparr>is_published := False\<rparr>"
  let ?pages = "[js ''draft'' \<mapsto> js ''stale'', js ''off'' \<mapsto> js ''stale'']"
  have r0: "reachable ?R (example_store [])"
    by (rule reachable.initial) (simp add: example_store_def)
  have "\<exists>regen. create_post ?R (js ''id1'') 1 (example_store [])
                  (no_input\<lparr>in_title := Some (js ''Draft''), in_is_draft := Some 1\<rparr>)
                = Inr (example_store [?D], regen)"
    by (simp add: eval_defs)
  then obtain g1 where c1: "create_post ?R (js ''id1'') 1 (example_store [])
                  (no_input\<lparr>in_title := Some (js ''Draft''), in_is_draft := Some 1\<rparr>)
                = Inr (example_store [?D], g1)" ..
  have r1: "reachable ?R (example_store [?D])"
    by (rule reachable.created [OF r0 _ c1]) (simp add: js_def)
  have "\<exists>regen. create_post ?R (js ''id2'') 2 (example_store [?D])
                  (no_input\<lparr>in_title := Some (js ''Off''), in_is_published := Some False\<rparr>)
                = Inr (example_store [?D, ?U], regen)"
    by (simp add: eval_defs)
  then obtain g2 where c2: "create_post ?R (js ''id2'') 2 (example_store [?D])
                  (no_input\<lparr>in_title := Some (js ''Off''), in_is_published := Some False\<rparr>)
                = Inr (example_store [?D, ?U], g2)" ..
  have r2: "reachable ?R (example_store [?D, ?U])"
    by (rule reachable.created [OF r1 _ c2]) (simp add: js_def)
  have e: "rebuild_all (example_store [?D, ?U]) = [?D]"
    by (simp add: eval_defs)
  have y: "getFullYear ?R 0 = 1970" by (simp add: example_runtime_def)
  have sl: "slug (example_row ''id1'' ''Draft'' ''draft'' 1) = js ''draft''"
    by (simp add: example_row_def)
  from rebuild_all_published [of "example_store [?D, ?U]" ?R "\<lambda>i. 0" ?pages] r2
  have v: "\<forall>i < length (rebuild_all (example_store [?D, ?U])).
              rebuild_all_pages ?R (\<lambda>i. 0) (example_store [?D, ?U]) ?pages
                (slug (rebuild_all (example_store [?D, ?U]) ! i))
                = Some (page_html ?R (getFullYear ?R 0) (example_store [?D, ?U])
                         (rebuild_all (example_store [?D, ?U]) ! i))"
    and o: "\<forall>k. \<not> (\<exists>p \<in> set (posts (example_store [?D, ?U])). is_published p \<and> slug p = k) \<longrightarrow>
              rebuild_all_pages ?R (\<lambda>i. 0) (example_store [?D, ?U]) ?pages k = ?pages k"
    by blast+
  from v have 1: "rebuild_all_pages ?R (\<lambda>i. 0) (example_store [?D, ?U]) ?pages (js ''draft'')
                   = Some (page_html ?R 1970 (example_store [?D, ?U]) ?D)"
    unfolding e y by (simp add: sl)
  have "\<not> (\<exists>p \<in> set (posts (example_store [?D, ?U])). is_published p \<and> slug p = js ''off'')"
    by (simp add: example_store_def example_row_def js_def)
  with o have "rebuild_all_pages ?R (\<lambda>i. 0) (example_store [?D, ?U]) ?pages (js ''off'')
                 = ?pages (js ''off'')" by blast
  then have 2: "rebuild_all_pages ?R (\<lambda>i. 0) (example_store [?D, ?U]) ?pages (js ''off'')
                 = Some (js ''stale'')" by simp
  from r2 e 1 2 show ?thesis by (intro conjI)
qed

text \<open>
  C7 as it is stated fails: \<^verbatim>\<open>POST /api/posts\<close> with \<^verbatim>\<open>is_draft: 1\<close> and no
  \<^verbatim>\<open>is_published\<close> stores a draft whose \<^verbatim>\<open>is_published\<close> is true, and the rebuild
  regenerates its page.
\<close>

theorem rebuild_all_counterexample:
  "create_post example_runtime (js ''id1'') 1 (example_store [])
     (no_input\<lparr>in_title := Some (js ''Draft''), in_is_draft := Some 1\<rparr>)
   = Inr (example_store [(example_row ''id1'' ''Draft'' ''draft'' 1)\<lparr>is_draft := 1\<rparr>],
          [(example_row ''id1'' ''Draft'' ''draft'' 1)\<lparr>is_draft := 1, category := []\<rparr>])
   \<and> rebuild_all
       (example_store [(example_row ''id1'' ''Draft'' ''draft'' 1)\<lparr>is_draft := 1\<rparr>])
     = [(example_row ''id1'' ''Draft'' ''draft'' 1)\<lparr>is_draft := 1\<rparr>]
   \<and> is_draft ((example_row ''id1'' ''Draft'' ''draft'' 1)\<lparr>is_draft := 1\<rparr>) = 1"
  by (simp add: eval_defs)

lemma select_prev_published_row_append:
  assumes "posts db' = posts db @ [row]" "published_at row = t"
  shows "(select_prev_published_row db' t = None
            \<longleftrightarrow> \<not> (\<exists>r \<in> set (posts db). is_published r \<and> published_at r < t))
         \<and> (select_prev_published_row db' t = Some q \<longrightarrow>
               q \<in> set (posts db) \<and> is_published q \<and> published_at q < t
               \<and> (\<forall>r \<in> set (posts db).
                     is_published r \<and> published_at r < t \<longrightarrow> published_at r \<le> published_at q))"
proof -
  have n: "select_prev_published_row db' t = None
            \<longleftrightarrow> \<not> (\<exists>r \<in> set (posts db). is_published r \<and> published_at r < t)"
    unfolding select_prev_published_row_None using assms by auto
  have s: "q \<in> set (posts db) \<and> is_published q \<and> published_at q < t
               \<and> (\<forall>r \<in> set (posts db).
                     is_published r \<and> published_at r < t \<longrightarrow> published_at r \<le> published_at q)"
    if "select_prev_published_row db' t = Some q"
    using select_prev_published_row_Some [OF that] assms by auto
  from n s show ?thesis by blast
qed

lemma create_post_result:
  assumes "create_post rt newId now db body = Inr (db', regen)"
  shows "\<exists>row. posts db' = posts db @ [row] \<and> post_id row = newId \<and> published_at row = now
           \<and> slug row \<notin> slug ` set (posts db)
           \<and> regen = row\<lparr>category := or_default (in_category body) []\<rparr>
                      # (case select_prev_published_row db' now of
                           None \<Rightarrow> []
                         | Some prevPost \<Rightarrow> [prevPost])"
proof -
  let ?ttl = "or_default (in_title body) []"
  let ?s0 = "generateUniqueSlug rt (posts db) ?ttl (Some newId)"
  let ?s1 = "if ?s0 = [] then newId else ?s0"
  let ?row = "\<lparr> post_id = newId, title = ?ttl, slug = ?s1,
                    content = or_default (in_content body) [],
                    category = or_default (in_category body) (js ''Uncategorized''),
                    tags = JSON_stringify rt (case in_tags body of None \<Rightarrow> [] | Some ts \<Rightarrow> ts),
                    feature_image = or_default (in_feature_image body) (js ''/assets/banner.jpg''),
                    published_at = now,
                    is_published = (case in_is_published body of None \<Rightarrow> True | Some b \<Rightarrow> b),
                    is_draft = (case in_is_draft body of None \<Rightarrow> 0 | Some d \<Rightarrow> d),
                    is_pinned = (case in_is_pinned body of None \<Rightarrow> 0 | Some d \<Rightarrow> d) \<rparr>"
  from assms have ok: "\<not> (\<exists>p \<in> set (posts db). post_id p = newId \<or> slug p = ?s1)"
    and t: "?ttl \<noteq> []"
    by (auto simp: create_post_def Let_def split: if_splits)
  from assms ok t have db': "db' = db\<lparr>posts := posts db @ [?row]\<rparr>"
    and regen: "regen = ?row\<lparr>category := or_default (in_category body) []\<rparr>
                      # (case select_prev_published_row (db\<lparr>posts := posts db @ [?row]\<rparr>) now of
                           None \<Rightarrow> []
                         | Some prevPost \<Rightarrow> [prevPost])"
    by (auto simp: create_post_def Let_def)
  have "slug ?row \<notin> slug ` set (posts db)" using ok by auto
  with db' regen show ?thesis
    by (intro exI [of _ ?row]) simp
qed

text \<open>
  C4. A successful \<^verbatim>\<open>POST /api/posts\<close> appends the new post, with the fresh identifier
  and the clock's instant as its timestamp and a slug no other post has, and hands to
  the page generator the new post and then, when there is one, a post whose
  \<^verbatim>\<open>is_published\<close> is true and whose timestamp is the greatest one strictly below the
  new post's among such posts, and nothing else. Afterwards the bucket holds, under the
  slug of each of the two, the page rendered for it from the store with the new post, at
  the clock of its turn, and is unchanged at every other key.
\<close>

theorem create_post_cascade:
  "create_post rt newId now db body = Inr (db', regen) \<Longrightarrow>
     (\<exists>row. posts db' = posts db @ [row] \<and> post_id row = newId \<and> published_at row = now
         \<and> slug row \<notin> slug ` set (posts db)
         \<and> regen = row\<lparr>category := or_default (in_category body) []\<rparr>
                    # (case select_prev_published_row db' now of
                         None \<Rightarrow> []
                       | Some prevPost \<Rightarrow> [prevPost]))
     \<and> (case select_prev_published_row db' now of
          None \<Rightarrow> \<not> (\<exists>r \<in> set (posts db). is_published r \<and> published_at r < now)
        | Some q \<Rightarrow>
            q \<in> set (posts db) \<and> is_published q \<and> published_at q < now
            \<and> (\<forall>r \<in> set (posts db).
                  is_published r \<and> published_at r < now
                  \<longrightarrow> published_at r \<le> published_at q))
     \<and> (\<forall>i < length regen.
           run_cascade rt clock db' regen pages (slug (regen ! i))
             = Some (page_html rt (getFullYear rt (clock i)) db' (regen ! i)))
     \<and> (\<forall>k. k \<notin> slug ` set regen \<longrightarrow> run_cascade rt clock db' regen pages k = pages k)"
proof -
  assume c: "create_post rt newId now db body = Inr (db', regen)"
  from create_post_result [OF c] obtain row where
    row: "posts db' = posts db @ [row]" "post_id row = newId" "published_at row = now"
      "slug row \<notin> slug ` set (posts db)"
      "regen = row\<lparr>category := or_default (in_category body) []\<rparr>
                # (case select_prev_published_row db' now of
                     None \<Rightarrow> []
                   | Some prevPost \<Rightarrow> [prevPost])"
    by blast
  note app = select_prev_published_row_append [OF row(1) row(3)]
  have 1: "\<exists>row. posts db' = posts db @ [row] \<and> post_id row = newId \<and> published_at row = now
         \<and> slug row \<notin> slug ` set (posts db)
         \<and> regen = row\<lparr>category := or_default (in_category body) []\<rparr>
                    # (case select_prev_published_row db' now of
                         None \<Rightarrow> []
                       | Some prevPost \<Rightarrow> [prevPost])"
    using row by blast
  have 2: "(case select_prev_published_row db' now of
          None \<Rightarrow> \<not> (\<exists>r \<in> set (posts db). is_published r \<and> published_at r < now)
        | Some q \<Rightarrow>
            q \<in> set (posts db) \<and> is_published q \<and> published_at q < now
            \<and> (\<forall>r \<in> set (posts db).
                  is_published r \<and> published_at r < now
                  \<longrightarrow> published_at r \<le> published_at q))"
  proof (cases "select_prev_published_row db' now")
    case None
    with app [of undefined] show ?thesis by simp
  next
    case (Some q)
    with app [of q] show ?thesis by simp
  qed
  have d: "distinct (map slug regen)"
  proof (cases "select_prev_published_row db' now")
    case None
    with row(5) show ?thesis by simp
  next
    case (Some q)
    with app [of q] have "q \<in> set (posts db)" by simp
    with row(4) have "slug row \<noteq> slug q" by auto
    with Some row(5) show ?thesis by simp
  qed
  have 3: "\<forall>i < length regen.
           run_cascade rt clock db' regen pages (slug (regen ! i))
             = Some (page_html rt (getFullYear rt (clock i)) db' (regen ! i))"
    using d by (intro allI impI run_cascade_value)
  have 4: "\<forall>k. k \<notin> slug ` set regen \<longrightarrow> run_cascade rt clock db' regen pages k = pages k"
    using run_cascade_other by blast
  from 1 2 3 4 show ?thesis by (intro conjI)
qed

theorem create_post_cascade_witness:
  "create_post example_runtime (js ''id3'') 9
     (example_store [example_row ''id1'' ''Hello'' ''hello'' 1,
                     (example_row ''id2'' ''Off'' ''off'' 2)\<lparr>is_published := False\<rparr>])
     (no_input\<lparr>in_title := Some (js ''World'')\<rparr>)
   = Inr (example_store [example_row ''id1'' ''Hello'' ''hello'' 1,
                         (example_row ''id2'' ''Off'' ''off'' 2)\<lparr>is_published := False\<rparr>,
                         example_row ''id3'' ''World'' ''world'' 9],
          [(example_row ''id3'' ''World'' ''world'' 9)\<lparr>category := []\<rparr>,
           example_row ''id1'' ''Hello'' ''hello'' 1])
   \<and> run_cascade example_runtime (\<lambda>i. 0)
       (example_store [example_row ''id1'' ''Hello'' ''hello'' 1,
                       (example_row ''id2'' ''Off'' ''off'' 2)\<lparr>is_published := False\<rparr>,
                       example_row ''id3'' ''World'' ''world'' 9])
       [(example_row ''id3'' ''World'' ''world'' 9)\<lparr>category := []\<rparr>,
        example_row ''id1'' ''Hello'' ''hello'' 1]
       [js ''hello'' \<mapsto> js ''stale''] (js ''hello'')
     = Some (page_html example_runtime 1970
              (example_store [example_row ''id1'' ''Hello'' ''hello'' 1,
                              (example_row ''id2'' ''Off'' ''off'' 2)\<lparr>is_published := False\<rparr>,
                              example_row ''id3'' ''World'' ''world'' 9])
              (example_row ''id1'' ''Hello'' ''hello'' 1))
   \<and> run_cascade example_runtime (\<lambda>i. 0)
       (example_store [example_row ''id1'' ''Hello'' ''hello'' 1,
                       (example_row ''id2'' ''Off'' ''off'' 2)\<lparr>is_published := False\<rparr>,
                       example_row ''id3'' ''World'' ''world'' 9])
       [(example_row ''id3'' ''World'' ''world'' 9)\<lparr>category := []\<rparr>,
        example_row ''id1'' ''Hello'' ''hello'' 1]
       [js ''hello'' \<mapsto> js ''stale''] (js ''world'')
     = Some (page_html example_runtime 1970
              (example_store [example_row ''id1'' ''Hello'' ''hello'' 1,
                              (example_row ''id2'' ''Off'' ''off'' 2)\<lparr>is_published := False\<rparr>,
                              example_row ''id3'' ''World'' ''world'' 9])
              ((example_row ''id3'' ''World'' ''world'' 9)\<lparr>category := []\<rparr>))"
proof -
  let ?db = "example_store [example_row ''id1'' ''Hello'' ''hello'' 1,
                     (example_row ''id2'' ''Off'' ''off'' 2)\<lparr>is_published := False\<rparr>]"
  let ?db' = "example_store [example_row ''id1'' ''Hello'' ''hello'' 1,
                         (example_row ''id2'' ''Off'' ''off'' 2)\<lparr>is_published := False\<rparr>,
                         example_row ''id3'' ''World'' ''world'' 9]"
  let ?new = "(example_row ''id3'' ''World'' ''world'' 9)\<lparr>category := []\<rparr>"
  let ?old = "example_row ''id1'' ''Hello'' ''hello'' 1"
  let ?pages = "[js ''hello'' \<mapsto> js ''stale'']"
  have c: "create_post example_runtime (js ''id3'') 9 ?db
             (no_input\<lparr>in_title := Some (js ''World'')\<rparr>) = Inr (?db', [?new, ?old])"
    by (simp add: eval_defs del: set_filter)
  have y: "getFullYear example_runtime 0 = 1970" by (simp add: example_runtime_def)
  have sl: "slug ?new = js ''world''" "slug ?old = js ''hello''"
    by (simp_all add: example_row_def)
  from create_post_cascade [OF c, of "\<lambda>i. 0" ?pages]
  have v: "\<forall>i < length [?new, ?old].
           run_cascade example_runtime (\<lambda>i. 0) ?db' [?new, ?old] ?pages (slug ([?new, ?old] ! i))
             = Some (page_html example_runtime (getFullYear example_runtime 0) ?db'
                      ([?new, ?old] ! i))"
    by blast
  from v [rule_format, of 0] v [rule_format, of 1] c show ?thesis
    unfolding y by (simp add: sl)
qed



section \<open>The neighbour lookups of the update and delete handlers\<close>

lemma select_prev_any_Some:
  "select_prev_any db t = Some q \<Longrightarrow> q \<in> set (posts db) \<and> published_at q < t"
  unfolding select_prev_any_def by (drule order_desc_limit_1_Some) auto

lemma select_next_any_Some:
  "select_next_any db t = Some q \<Longrightarrow> q \<in> set (posts db) \<and> t < published_at q"
  unfolding select_next_any_def by (drule order_asc_limit_1_Some) auto

lemma order_desc_limit_1_inj:
  assumes "inj_on published_at (set rows)"
  shows "order_desc_limit_1 f rows = order_desc_limit_1 g rows"
proof (cases "filter (\<lambda>q. \<not> (\<exists>r \<in> set rows. published_at q < published_at r)) rows")
  case Nil
  then show ?thesis by (simp add: order_desc_limit_1_def)
next
  case (Cons r rs)
  have top: "set (r # rs) = {q \<in> set rows. \<not> (\<exists>r \<in> set rows. published_at q < published_at r)}"
    unfolding Cons [symmetric] by simp
  have "x = r" if "x \<in> set (r # rs)" for x
  proof -
    have "r \<in> set (r # rs)" by simp
    with that top have x: "x \<in> set rows" "\<not> published_at x < published_at r"
      and r: "r \<in> set rows" "\<not> published_at r < published_at x"
      by blast+
    then have "published_at x = published_at r" by simp
    with assms x(1) r(1) show ?thesis by (auto dest: inj_onD)
  qed
  then have "(if h (r # rs) \<in> set (r # rs) then h (r # rs) else r) = r" for h
    by auto
  with Cons show ?thesis by (simp add: order_desc_limit_1_def)
qed

lemma order_asc_limit_1_inj:
  assumes "inj_on published_at (set rows)"
  shows "order_asc_limit_1 f rows = order_asc_limit_1 g rows"
proof (cases "filter (\<lambda>q. \<not> (\<exists>r \<in> set rows. published_at r < published_at q)) rows")
  case Nil
  then show ?thesis by (simp add: order_asc_limit_1_def)
next
  case (Cons r rs)
  have top: "set (r # rs) = {q \<in> set rows. \<not> (\<exists>r \<in> set rows. published_at r < published_at q)}"
    unfolding Cons [symmetric] by simp
  have "x = r" if "x \<in> set (r # rs)" for x
  proof -
    have "r \<in> set (r # rs)" by simp
    with that top have x: "x \<in> set rows" "\<not> published_at r < published_at x"
      and r: "r \<in> set rows" "\<not> published_at x < published_at r"
      by blast+
    then have "published_at x = published_at r" by simp
    with assms x(1) r(1) show ?thesis by (auto dest: inj_onD)
  qed
  then have "(if h (r # rs) \<in> set (r # rs) then h (r # rs) else r) = r" for h
    by auto
  with Cons show ?thesis by (simp add: order_asc_limit_1_def)
qed

lemma select_any_published:
  assumes a: "\<forall>p \<in> set (posts db). is_published p"
    and i: "inj_on published_at (set (posts db))"
  shows "select_prev_any db t = select_prev_published db t
         \<and> select_next_any db t = select_next_published db t"
proof -
  from a have p: "filter (\<lambda>p. is_published p \<and> published_at p < t) (posts db)
               = filter (\<lambda>p. published_at p < t) (posts db)"
    by (intro filter_cong) auto
  from a have n: "filter (\<lambda>p. is_published p \<and> t < published_at p) (posts db)
               = filter (\<lambda>p. t < published_at p) (posts db)"
    by (intro filter_cong) auto
  from i have ip: "inj_on published_at (set (filter (\<lambda>p. published_at p < t) (posts db)))"
    by (rule inj_on_subset) auto
  from i have "inj_on published_at (set (filter (\<lambda>p. t < published_at p) (posts db)))"
    by (rule inj_on_subset) auto
  then show ?thesis
    unfolding select_prev_any_def select_next_any_def select_prev_published_def
      select_next_published_def p n
    using order_desc_limit_1_inj [OF ip] order_asc_limit_1_inj by blast
qed

lemma set_add_set: "set (set_add q ids) = set ids \<union> post_id ` set_option q"
  by (cases q) (auto simp: set_add_def)

lemma set_add_distinct: "distinct ids \<Longrightarrow> distinct (set_add q ids)"
  by (cases q) (auto simp: set_add_def)

lemma refetch_ids:
  "\<forall>n \<in> set ns. select_post d n \<noteq> None \<Longrightarrow>
     map post_id (concat (map (\<lambda>n. case select_post d n of None \<Rightarrow> [] | Some q \<Rightarrow> [q]) ns))
       = ns"
proof (induction ns)
  case Nil
  show ?case by simp
next
  case (Cons n ns)
  then obtain q where q: "select_post d n = Some q" by auto
  then have "post_id q = n" using select_post_Some by blast
  with q Cons show ?case by simp
qed

lemma same_id_same_row:
  "distinct (map post_id ps) \<Longrightarrow> p \<in> set ps \<Longrightarrow> q \<in> set ps \<Longrightarrow> post_id p = post_id q \<Longrightarrow>
     p = q"
  by (meson distinct_map inj_onD)

lemma post_id_updatedPost_of [simp]: "post_id (updatedPost_of rt body ns p) = post_id p"
  by (simp add: updatedPost_of_def Let_def)

lemma published_at_updatedPost_of [simp]:
  "published_at (updatedPost_of rt body ns p) = published_at (apply_updates rt body ns p)"
  by (simp add: updatedPost_of_def Let_def)

text \<open>
  What \<^verbatim>\<open>api.put\<close> regenerates, in general: the updated post first, and with it exactly
  the rows its own four queries return, each identifier once. The queries look at the
  timestamps of all rows, published or not.
\<close>

lemma put_post_cascade:
  assumes inv: "store_invariant db" and put: "put_post rt i db body = Inr (db', regen)"
  shows "\<exists>P P'. select_post db i = Some P \<and> select_post db' i = Some P'
           \<and> published_at (hd regen) = published_at P' \<and> post_id (hd regen) = i
           \<and> distinct (map post_id regen)
           \<and> set (map post_id regen)
               = {i} \<union> post_id ` (set_option (select_prev_any db (published_at P))
                                   \<union> set_option (select_next_any db (published_at P))
                                   \<union> set_option (select_prev_any db' (published_at P'))
                                   \<union> set_option (select_next_any db' (published_at P')))"
proof -
  from put obtain P where P: "select_post db i = Some P"
    by (auto simp: put_post_def split: option.splits)
  define ns where "ns =
     (case in_title body of
        None \<Rightarrow> None
      | Some t \<Rightarrow>
          if t \<noteq> [] \<and> t \<noteq> title P
          then Some (generateUniqueSlug rt (posts db) t (Some i))
          else None)"
  define f where "f = (\<lambda>q. if post_id q = i then apply_updates rt body ns q else q)"
  define N where "N = set_add (select_next_any db (published_at P))
                        (set_add (select_prev_any db (published_at P)) [])"
  define U where "U = updatedPost_of rt body ns P"
  define A where "A = (case select_prev_any db' (published_at U) of
                         None \<Rightarrow> []
                       | Some q \<Rightarrow> if post_id q \<in> set N then [] else [q])"
  define B where "B = (case select_next_any db' (published_at U) of
                         None \<Rightarrow> []
                       | Some q \<Rightarrow> if post_id q \<in> set N then [] else [q])"
  define C where "C = concat (map (\<lambda>n. case select_post db' n of None \<Rightarrow> [] | Some q \<Rightarrow> [q]) N)"
  from put P have ok: "\<not> (\<exists>q \<in> set (posts db). post_id q \<noteq> i \<and> Some (slug q) = ns)"
    by (auto simp: put_post_def Let_def ns_def split: if_splits)
  from put P ok have db': "db' = db\<lparr>posts := map f (posts db)\<rparr>"
    by (auto simp: put_post_def Let_def ns_def f_def split: if_splits)
  from put P ok have regen: "regen = U # A @ B @ C"
    unfolding A_def B_def C_def U_def N_def
    by (simp add: put_post_def Let_def ns_def [symmetric] db' f_def)
  have inv': "store_invariant db'" using inv put by (rule put_post_invariant)
  have dist: "distinct (map post_id (posts db))" and dist': "distinct (map post_id (posts db'))"
    using inv inv' by (simp_all add: store_invariant_def)
  have Pin: "P \<in> set (posts db)" "post_id P = i" using P select_post_Some by blast+
  define P' where "P' = apply_updates rt body ns P"
  have P': "select_post db' i = Some P'"
    using P by (simp add: db' f_def P'_def select_post_def find_map_update)
  have P'in: "P' \<in> set (posts db')" "post_id P' = i" using P' select_post_Some by blast+
  have tU: "published_at U = published_at P'" by (simp add: U_def P'_def)
  have idf: "post_id (f q) = post_id q" for q by (simp add: f_def)
  have Nset: "set N = post_id ` (set_option (select_prev_any db (published_at P))
                                 \<union> set_option (select_next_any db (published_at P)))"
    by (auto simp: N_def set_add_set)
  have Ndist: "distinct N" by (simp add: N_def set_add_distinct)
  have Nin: "\<forall>n \<in> set N. \<exists>nb \<in> set (posts db). post_id nb = n \<and> published_at nb \<noteq> published_at P"
  proof
    fix n assume "n \<in> set N"
    then consider nb where "select_prev_any db (published_at P) = Some nb" "n = post_id nb"
      | nb where "select_next_any db (published_at P) = Some nb" "n = post_id nb"
      unfolding Nset
      by (cases "select_prev_any db (published_at P)";
          cases "select_next_any db (published_at P)") auto
    then show "\<exists>nb \<in> set (posts db). post_id nb = n \<and> published_at nb \<noteq> published_at P"
    proof cases
      case 1
      with select_prev_any_Some [of db "published_at P" nb] show ?thesis by auto
    next
      case 2
      with select_next_any_Some [of db "published_at P" nb] show ?thesis by auto
    qed
  qed
  have iN: "i \<notin> set N"
  proof
    assume "i \<in> set N"
    with Nin obtain nb where nb: "nb \<in> set (posts db)" "post_id nb = i"
        "published_at nb \<noteq> published_at P" by blast
    with Pin dist have "nb = P" by (auto intro: same_id_same_row)
    with nb show False by simp
  qed
  have refetch: "\<forall>n \<in> set N. select_post db' n \<noteq> None"
  proof
    fix n assume "n \<in> set N"
    with Nin obtain nb where nb: "nb \<in> set (posts db)" "post_id nb = n" by blast
    then have "f nb \<in> set (posts db')" "post_id (f nb) = n" by (simp_all add: db' idf)
    then show "select_post db' n \<noteq> None"
      by (auto simp: select_post_def find_None_iff)
  qed
  have Cids: "map post_id C = N" unfolding C_def using refetch by (rule refetch_ids)
  have Aid: "\<forall>q \<in> set A. post_id q \<noteq> i \<and> post_id q \<notin> set N
               \<and> q \<in> set (posts db') \<and> published_at q < published_at P'"
  proof
    fix q assume "q \<in> set A"
    then have s: "select_prev_any db' (published_at U) = Some q" and n: "post_id q \<notin> set N"
      by (auto simp: A_def split: option.splits if_splits)
    from select_prev_any_Some [OF s] have q: "q \<in> set (posts db')" "published_at q < published_at P'"
      by (simp_all add: tU)
    have "post_id q \<noteq> i"
    proof
      assume "post_id q = i"
      with q(1) P'in dist' have "q = P'" by (auto intro: same_id_same_row)
      with q(2) show False by simp
    qed
    with n q show "post_id q \<noteq> i \<and> post_id q \<notin> set N
               \<and> q \<in> set (posts db') \<and> published_at q < published_at P'" by simp
  qed
  have Bid: "\<forall>q \<in> set B. post_id q \<noteq> i \<and> post_id q \<notin> set N
               \<and> q \<in> set (posts db') \<and> published_at P' < published_at q"
  proof
    fix q assume "q \<in> set B"
    then have s: "select_next_any db' (published_at U) = Some q" and n: "post_id q \<notin> set N"
      by (auto simp: B_def split: option.splits if_splits)
    from select_next_any_Some [OF s] have q: "q \<in> set (posts db')" "published_at P' < published_at q"
      by (simp_all add: tU)
    have "post_id q \<noteq> i"
    proof
      assume "post_id q = i"
      with q(1) P'in dist' have "q = P'" by (auto intro: same_id_same_row)
      with q(2) show False by simp
    qed
    with n q show "post_id q \<noteq> i \<and> post_id q \<notin> set N
               \<and> q \<in> set (posts db') \<and> published_at P' < published_at q" by simp
  qed
  have AB: "\<forall>a \<in> set A. \<forall>b \<in> set B. post_id a \<noteq> post_id b"
  proof (intro ballI)
    fix a b assume ab: "a \<in> set A" "b \<in> set B"
    show "post_id a \<noteq> post_id b"
    proof
      assume "post_id a = post_id b"
      with ab Aid Bid dist' have "a = b" by (auto intro: same_id_same_row)
      with ab Aid Bid show False by fastforce
    qed
  qed
  have lenA: "length A \<le> 1" and lenB: "length B \<le> 1"
    by (auto simp: A_def B_def split: option.splits)
  have dA: "distinct (map post_id A)" using lenA by (cases A) auto
  have dB: "distinct (map post_id B)" using lenB by (cases B) auto
  have ids: "map post_id regen = i # map post_id A @ map post_id B @ N"
    by (simp add: regen Cids U_def Pin)
  have iA: "i \<notin> set (map post_id A)" and iB: "i \<notin> set (map post_id B)"
    using Aid Bid by auto
  have AN: "set (map post_id A) \<inter> set N = {}" and BN: "set (map post_id B) \<inter> set N = {}"
    using Aid Bid by auto
  have ABd: "set (map post_id A) \<inter> set (map post_id B) = {}"
    using AB by auto
  have d: "distinct (map post_id regen)"
    unfolding ids using iA iB iN AN BN ABd dA dB Ndist
    by (simp only: distinct.simps distinct_append set_append set_simps Un_iff Int_Un_distrib
        Un_empty simp_thms)
  have Aset: "post_id ` set A \<union> set N
                = post_id ` set_option (select_prev_any db' (published_at P')) \<union> set N"
    by (cases "select_prev_any db' (published_at P')") (auto simp: A_def tU)
  have Bset: "post_id ` set B \<union> set N
                = post_id ` set_option (select_next_any db' (published_at P')) \<union> set N"
    by (cases "select_next_any db' (published_at P')") (auto simp: B_def tU)
  let ?old = "post_id ` (set_option (select_prev_any db (published_at P))
                         \<union> set_option (select_next_any db (published_at P)))"
  let ?np = "post_id ` set_option (select_prev_any db' (published_at P'))"
  let ?nn = "post_id ` set_option (select_next_any db' (published_at P'))"
  have "set (map post_id regen) = {i} \<union> (post_id ` set A \<union> set N) \<union> (post_id ` set B \<union> set N)"
    unfolding ids by (simp only: list.set set_append set_map) blast
  also have "\<dots> = {i} \<union> (?np \<union> ?old) \<union> (?nn \<union> ?old)"
    by (simp only: Aset Bset, simp only: Nset)
  also have "\<dots> = {i} \<union> (?old \<union> ?np \<union> ?nn)" by blast
  also have "?old \<union> ?np \<union> ?nn
      = post_id ` (set_option (select_prev_any db (published_at P))
                                   \<union> set_option (select_next_any db (published_at P))
                                   \<union> set_option (select_prev_any db' (published_at P'))
                                   \<union> set_option (select_next_any db' (published_at P')))"
    by (simp only: image_Un)
  finally have s: "set (map post_id regen)
               = {i} \<union> post_id ` (set_option (select_prev_any db (published_at P))
                                   \<union> set_option (select_next_any db (published_at P))
                                   \<union> set_option (select_prev_any db' (published_at P'))
                                   \<union> set_option (select_next_any db' (published_at P')))" .
  have h: "published_at (hd regen) = published_at P'" "post_id (hd regen) = i"
    by (simp_all add: regen U_def P'_def Pin)
  show ?thesis
    by (intro exI [of _ P] exI [of _ P'] conjI) (rule P P' h d s)+
qed

text \<open>What \<^verbatim>\<open>api.delete\<close> does, in general.\<close>

lemma delete_post_cascade:
  assumes "delete_post i db = Inr (db', key, regen)"
  shows "\<exists>P. select_post db i = Some P \<and> key = slug P
           \<and> posts db' = filter (\<lambda>p. post_id p \<noteq> i) (posts db)
           \<and> regen = (case select_prev_any db (published_at P) of None \<Rightarrow> [] | Some q \<Rightarrow> [q])
                      @ (case select_next_any db (published_at P) of None \<Rightarrow> [] | Some q \<Rightarrow> [q])"
  using assms by (auto simp: delete_post_def Let_def split: option.splits)

text \<open>
  When every post is published, before and after the update, and no two posts share a
  timestamp, these rows are the neighbours that the pages show.
\<close>

lemma put_post_cascade_published:
  assumes inv: "store_invariant db" and put: "put_post rt i db body = Inr (db', regen)"
    and pub: "\<forall>p \<in> set (posts db). is_published p" "\<forall>p \<in> set (posts db'). is_published p"
    and inj: "inj_on published_at (set (posts db))" "inj_on published_at (set (posts db'))"
  shows "\<exists>P P'. select_post db i = Some P \<and> select_post db' i = Some P'
           \<and> published_at (hd regen) = published_at P' \<and> post_id (hd regen) = i
           \<and> distinct (map post_id regen)
           \<and> set (map post_id regen)
               = {i} \<union> post_id ` (set_option (select_prev_published db (published_at P))
                                   \<union> set_option (select_next_published db (published_at P))
                                   \<union> set_option (select_prev_published db' (published_at P'))
                                   \<union> set_option (select_next_published db' (published_at P')))"
  using put_post_cascade [OF inv put]
  by (simp only: select_any_published [OF pub(1) inj(1)] select_any_published [OF pub(2) inj(2)])

text \<open>
  C1, at an input where the handler and the claim part. The store holds the published
  post \<open>id1\<close> (timestamp 1), the unpublished post \<open>id2\<close> (timestamp 2) and the published
  post \<open>id3\<close> (timestamp 3); the previous neighbour on the page of \<open>id3\<close> is \<open>id1\<close>, before
  and after the update. \<^verbatim>\<open>PUT /api/posts/id3\<close> with a new title regenerates the pages of
  \<open>id3\<close> and of the unpublished \<open>id2\<close>, and not the page of \<open>id1\<close>, whose link to \<open>id3\<close>
  carries the old title and slug.
\<close>

theorem put_post_misses_published_neighbour:
  "put_post example_runtime (js ''id3'')
     (example_store [example_row ''id1'' ''Hello'' ''hello'' 1,
                     (example_row ''id2'' ''Off'' ''off'' 2)\<lparr>is_published := False\<rparr>,
                     example_row ''id3'' ''World'' ''world'' 3])
     (no_input\<lparr>in_title := Some (js ''New'')\<rparr>)
   = Inr (example_store [example_row ''id1'' ''Hello'' ''hello'' 1,
                         (example_row ''id2'' ''Off'' ''off'' 2)\<lparr>is_published := False\<rparr>,
                         example_row ''id3'' ''New'' ''new'' 3],
          [example_row ''id3'' ''New'' ''new'' 3,
           (example_row ''id2'' ''Off'' ''off'' 2)\<lparr>is_published := False\<rparr>])
   \<and> select_prev_published
       (example_store [example_row ''id1'' ''Hello'' ''hello'' 1,
                       (example_row ''id2'' ''Off'' ''off'' 2)\<lparr>is_published := False\<rparr>,
                       example_row ''id3'' ''World'' ''world'' 3]) 3
     = Some (example_row ''id1'' ''Hello'' ''hello'' 1)
   \<and> select_prev_published
       (example_store [example_row ''id1'' ''Hello'' ''hello'' 1,
                       (example_row ''id2'' ''Off'' ''off'' 2)\<lparr>is_published := False\<rparr>,
                       example_row ''id3'' ''New'' ''new'' 3]) 3
     = Some (example_row ''id1'' ''Hello'' ''hello'' 1)
   \<and> select_next_published
       (example_store [example_row ''id1'' ''Hello'' ''hello'' 1,
                       (example_row ''id2'' ''Off'' ''off'' 2)\<lparr>is_published := False\<rparr>,
                       example_row ''id3'' ''New'' ''new'' 3]) 1
     = Some (example_row ''id3'' ''New'' ''new'' 3)"
  by (simp add: eval_defs del: set_filter)

text \<open>
  C3, at an input where the handler and the claim part. In the same store,
  \<^verbatim>\<open>DELETE /api/posts/id3\<close> removes the row and the blob of \<open>id3\<close> and regenerates the page
  of the unpublished \<open>id2\<close> only; the page of \<open>id1\<close>, the previous neighbour of \<open>id3\<close>, is
  left as it was, with its link to the deleted post.
\<close>

theorem delete_post_misses_published_neighbour:
  "delete_post (js ''id3'')
     (example_store [example_row ''id1'' ''Hello'' ''hello'' 1,
                     (example_row ''id2'' ''Off'' ''off'' 2)\<lparr>is_published := False\<rparr>,
                     example_row ''id3'' ''World'' ''world'' 3])
   = Inr (example_store [example_row ''id1'' ''Hello'' ''hello'' 1,
                         (example_row ''id2'' ''Off'' ''off'' 2)\<lparr>is_published := False\<rparr>],
          js ''world'',
          [(example_row ''id2'' ''Off'' ''off'' 2)\<lparr>is_published := False\<rparr>])
   \<and> select_prev_published
       (example_store [example_row ''id1'' ''Hello'' ''hello'' 1,
                       (example_row ''id2'' ''Off'' ''off'' 2)\<lparr>is_published := False\<rparr>,
                       example_row ''id3'' ''World'' ''world'' 3]) 3
     = Some (example_row ''id1'' ''Hello'' ''hello'' 1)
   \<and> select_next_published
       (example_store [example_row ''id1'' ''Hello'' ''hello'' 1,
                       (example_row ''id2'' ''Off'' ''off'' 2)\<lparr>is_published := False\<rparr>,
                       example_row ''id3'' ''World'' ''world'' 3]) 1
     = Some (example_row ''id3'' ''World'' ''world'' 3)
   \<and> delete_post_pages example_runtime (\<lambda>i. 0) (js ''id3'')
       (example_store [example_row ''id1'' ''Hello'' ''hello'' 1,
                       (example_row ''id2'' ''Off'' ''off'' 2)\<lparr>is_published := False\<rparr>,
                       example_row ''id3'' ''World'' ''world'' 3])
       [js ''hello'' \<mapsto> js ''next: world'', js ''world'' \<mapsto> js ''prev: hello'']
       (js ''hello'')
     = Some (js ''next: world'')
   \<and> delete_post_pages example_runtime (\<lambda>i. 0) (js ''id3'')
       (example_store [example_row ''id1'' ''Hello'' ''hello'' 1,
                       (example_row ''id2'' ''Off'' ''off'' 2)\<lparr>is_published := False\<rparr>,
                       example_row ''id3'' ''World'' ''world'' 3])
       [js ''hello'' \<mapsto> js ''next: world'', js ''world'' \<mapsto> js ''prev: hello'']
       (js ''world'')
     = None"
  by (simp add: eval_defs delete_post_pages_def generateAndStoreStaticPage_def del: set_filter)

end
